theory Spec2Isabelle
  imports Complex_Main "HOL-Library.Sublist" "HOL-Library.AList"
begin

section \<open>Single-sided LP backtest (analytics/backtest\_lp.py)\<close>

text \<open>
  The model follows \<open>backtest_lp.py\<close> from \<open>align_ticks_for_range\<close> to the grid
  search of \<open>main\<close>; loading the CSV files (\<open>load_events\<close>) and writing the result
  files are outside it, and the event frame is a list of rows with the columns that
  \<open>backtest_lp\<close> reads, of any values.

  Python floats are modelled as exact reals, Python ints as \<open>int\<close>, strings as
  \<open>string\<close>. Every Python-level float division whose divisor is a variable goes through
  \<open>py_div\<close>, so that a \<open>ZeroDivisionError\<close> is a branch of the model; a failed dictionary
  subscript is \<open>KeyError\<close>, a failed \<open>int(...)\<close> or \<open>math.log\<close> is \<open>ValueError\<close>.
  An exception ends the run: a function that can raise returns \<open>error + 'a\<close>.
  Console output (\<open>print\<close>, the heartbeat, \<open>verbose\<close>) is left out: it writes no variable
  that the simulation reads.
\<close>

subsection \<open>Constants and tables\<close>

datatype error = KeyError | ValueError | ZeroDivisionError | TypeError

definition CAPITAL_LIMIT_USD :: real where "CAPITAL_LIMIT_USD = 20000"
definition POSITION_SIZE_USD :: real where "POSITION_SIZE_USD = 1000"
definition SL_PCT :: real where "SL_PCT = 2 / 100"
definition MIN_POOLS_FOR_REF :: nat where "MIN_POOLS_FOR_REF = 3"

definition Z_CANDIDATES :: "real list" where
  "Z_CANDIDATES = [125 / 100, 15 / 10, 175 / 100, 2, 25 / 10]"
definition WINDOW_MINUTES :: "int list" where
  "WINDOW_MINUTES = [5, 10, 15]"
definition RANGE_PCT_CAND :: "real list" where
  "RANGE_PCT_CAND = [5 / 10000, 10 / 10000]"

definition FEE_TIER_MAP :: "int \<rightharpoonup> real" where
  "FEE_TIER_MAP = map_of [(100, 1 / 10000), (500, 5 / 10000), (1000, 10 / 10000), (3000, 30 / 10000)]"
definition TICK_SPACING_MAP :: "int \<rightharpoonup> int" where
  "TICK_SPACING_MAP = map_of [(100, 1), (500, 10), (1000, 20), (3000, 60)]"

definition py_div :: "real \<Rightarrow> real \<Rightarrow> error + real" where
  "py_div a b = (if b = 0 then Inl ZeroDivisionError else Inr (a / b))"

subsection \<open>Price model\<close>

definition usd_per_eth_from_tick :: "int \<Rightarrow> real" where
  "usd_per_eth_from_tick tick = exp (- real_of_int tick * ln (10001 / 10000))"

definition sqrt_ratio_from_tick :: "int \<Rightarrow> real" where
  "sqrt_ratio_from_tick tick = (10001 / 10000) powr (real_of_int tick / 2)"

text \<open>
  \<open>align_ticks_for_range\<close>: \<open>//\<close> on Python ints is floor division, which is \<open>div\<close> on
  \<open>int\<close>; \<open>math.log\<close> raises \<open>ValueError\<close> on a non-positive argument; \<open>math.ceil\<close>
  returns an int.
\<close>

definition align_ticks_for_range :: "int \<Rightarrow> int \<Rightarrow> real \<Rightarrow> string \<Rightarrow> error + (int \<times> int)" where
  "align_ticks_for_range entry_tick fee_tier target_pct dir =
     (case TICK_SPACING_MAP fee_tier of
        None \<Rightarrow> Inl KeyError
      | Some spacing \<Rightarrow>
          if 1 + target_pct \<le> 0 then Inl ValueError
          else
            let width0 = \<lceil>ln (1 + target_pct) / ln (10001 / 10000)\<rceil>;
                width = max width0 spacing;
                (lower, upper) =
                  (if dir = ''down'' then
                     let upper = (entry_tick div spacing) * spacing - spacing;
                         lower = upper - ((width div spacing) * spacing)
                     in (lower, upper)
                   else
                     let lower = ((entry_tick + spacing) div spacing) * spacing;
                         upper = lower + ((width div spacing) * spacing)
                     in (lower, upper));
                upper' = (if lower \<ge> upper then lower + spacing else upper)
            in Inr (lower, upper'))"

text \<open>
  \<open>L_from_amounts_single_side\<close>: the keyword arguments default to \<open>None\<close>;
  \<open>amount1\<close> is tested first.
\<close>

definition L_from_amounts_single_side ::
    "int \<Rightarrow> int \<Rightarrow> real option \<Rightarrow> real option \<Rightarrow> error + real" where
  "L_from_amounts_single_side tick_l tick_u amount0 amount1 =
     (let sa = sqrt_ratio_from_tick tick_l;
          sb = sqrt_ratio_from_tick tick_u
      in case amount1 of
           Some a1 \<Rightarrow> py_div a1 (sb - sa)
         | None \<Rightarrow>
             (case amount0 of
                Some a0 \<Rightarrow> py_div (a0 * (sa * sb)) (sb - sa)
              | None \<Rightarrow> Inl ValueError))"

definition amounts_at_price :: "real \<Rightarrow> int \<Rightarrow> int \<Rightarrow> int \<Rightarrow> error + (real \<times> real)" where
  "amounts_at_price L tick_l tick_u tick_now =
     (let sa = sqrt_ratio_from_tick tick_l;
          sb = sqrt_ratio_from_tick tick_u;
          s = sqrt_ratio_from_tick tick_now
      in if tick_now \<le> tick_l then
           (case py_div (L * (sb - sa)) (sa * sb) of
              Inl e \<Rightarrow> Inl e
            | Inr amt0 \<Rightarrow> Inr (amt0, 0))
         else if tick_now \<ge> tick_u then
           Inr (0, L * (sb - sa))
         else
           (case py_div (L * (sb - s)) (s * sb) of
              Inl e \<Rightarrow> Inl e
            | Inr amt0 \<Rightarrow> Inr (amt0, L * (s - sa))))"

subsection \<open>Pool names and fee tiers\<close>

text \<open>
  \<open>s.replace(pat, "")\<close>: the occurrences of \<open>pat\<close> are removed from left to right,
  without overlap; an empty pattern leaves the string as it is.
\<close>

fun str_remove :: "string \<Rightarrow> string \<Rightarrow> string" where
  "str_remove [] s = s"
| "str_remove (p # pat) [] = []"
| "str_remove (p # pat) (c # cs) =
     (if prefix (p # pat) (c # cs) then str_remove (p # pat) (drop (length pat) cs)
      else c # str_remove (p # pat) cs)"

text \<open>
  \<open>int(s)\<close> on an ASCII string: surrounding whitespace is stripped, one sign is allowed,
  then decimal digits follow, where single underscores may stand between digits.
  Anything else raises \<open>ValueError\<close>.
\<close>

definition is_space :: "char \<Rightarrow> bool" where
  "is_space c = (of_char c \<in> {9, 10, 11, 12, 13, 28, 29, 30, 31, 32 :: nat})"

definition digit_val :: "char \<Rightarrow> nat option" where
  "digit_val c =
     (let n = (of_char c :: nat) in if 48 \<le> n \<and> n \<le> 57 then Some (n - 48) else None)"

fun parse_digits :: "nat \<Rightarrow> string \<Rightarrow> nat option" where
  "parse_digits acc [] = Some acc"
| "parse_digits acc [c] =
     (case digit_val c of None \<Rightarrow> None | Some d \<Rightarrow> Some (10 * acc + d))"
| "parse_digits acc (c # c' # cs) =
     (case digit_val c of
        None \<Rightarrow> None
      | Some d \<Rightarrow>
          if c' = CHR ''_'' then
            (case cs of [] \<Rightarrow> None | _ \<Rightarrow> parse_digits (10 * acc + d) cs)
          else parse_digits (10 * acc + d) (c' # cs))"

definition strip :: "string \<Rightarrow> string" where
  "strip s = rev (dropWhile is_space (rev (dropWhile is_space s)))"

definition py_int :: "string \<Rightarrow> error + int" where
  "py_int s =
     (let t = strip s;
          (neg, ds) = (case t of
                         c # cs \<Rightarrow> if c = CHR ''-'' then (True, cs)
                                   else if c = CHR ''+'' then (False, cs)
                                   else (False, t)
                       | [] \<Rightarrow> (False, t))
      in case ds of
           [] \<Rightarrow> Inl ValueError
         | _ \<Rightarrow> (case parse_digits 0 ds of
                   None \<Rightarrow> Inl ValueError
                 | Some n \<Rightarrow> Inr (if neg then - int n else int n)))"

definition parse_fee_from_pool :: "string \<Rightarrow> error + int" where
  "parse_fee_from_pool pool_name =
     py_int (str_remove ''DAI'' (str_remove ''USDT'' (str_remove ''USDC''
       (str_remove ''ETH'' pool_name))))"

subsection \<open>Rows, positions, trade records, simulation state\<close>

text \<open>
  One row of the event frame, with the columns \<open>backtest_lp\<close> reads. A missing
  (\<open>NaN\<close>) \<open>liquidity\<close> is \<open>None\<close>.
\<close>

record row =
  row_timestamp :: int
  row_pool :: string
  row_tick :: int
  row_usd_per_eth :: real
  row_liquidity :: "real option"
  row_vol_usd :: real

record Position =
  pool :: string
  fee :: int
  direction :: string
  entry_ts :: int
  entry_tick :: int
  entry_price :: real
  tick_lower :: int
  tick_upper :: int
  L_user :: real
  notional :: real
  ever_in_range :: bool
  open_flag :: bool
  fees_usd :: real

text \<open>
  A trade record is a Python dict from column names to values. The \<open>note\<close> of an
  opening record is an f-string of \<open>z\<close> and \<open>z_entry\<close>; \<open>VNote z z_entry\<close> stands for it.
\<close>

datatype pyval = VStr string | VInt int | VFloat real | VNote real real

type_synonym trade = "(string \<times> pyval) list"

record bt_state =
  latest_price :: "(string \<times> real) list"
  latest_tick :: "(string \<times> int) list"
  diffs_by_pool :: "string \<Rightarrow> (int \<times> real) list"
  open_positions :: "Position list"
  equity :: real
  exposure :: real
  trades :: "trade list"
  has_open :: "string \<Rightarrow> bool"

definition init_state :: bt_state where
  "init_state = \<lparr> latest_price = [], latest_tick = [], diffs_by_pool = (\<lambda>_. []),
                  open_positions = [], equity = 0, exposure = 0, trades = [],
                  has_open = (\<lambda>_. False) \<rparr>"

subsection \<open>Statistics (numpy)\<close>

text \<open>
  \<open>np.median\<close>, \<open>np.mean\<close> and \<open>np.std(ddof=1)\<close>. The code calls the median on at
  least three values and the other two on at least ten.
\<close>

definition np_median :: "real list \<Rightarrow> real" where
  "np_median xs =
     (let s = sort xs; n = length s
      in if odd n then s ! (n div 2) else (s ! (n div 2 - 1) + s ! (n div 2)) / 2)"

definition np_mean :: "real list \<Rightarrow> real" where
  "np_mean xs = sum_list xs / real (length xs)"

definition np_std_ddof1 :: "real list \<Rightarrow> real" where
  "np_std_ddof1 xs =
     sqrt (sum_list (map (\<lambda>x. (x - np_mean xs)\<^sup>2) xs) / (real (length xs) - 1))"

definition zscore :: "real \<Rightarrow> real list \<Rightarrow> error + real option" where
  "zscore d vals =
     (if length vals \<ge> 10 then
        let mu = np_mean vals; sd = np_std_ddof1 vals
        in if sd > 1 / 10 ^ 12 then
             (case py_div (d - mu) sd of Inl e \<Rightarrow> Inl e | Inr q \<Rightarrow> Inr (Some q))
           else Inr None
      else Inr None)"

text \<open>
  The deviation window of one pool after an event: the new sample is appended, then
  stale samples are popped from the front.
\<close>

definition push_window :: "int \<Rightarrow> int \<Rightarrow> real \<Rightarrow> (int \<times> real) list \<Rightarrow> (int \<times> real) list" where
  "push_window window_sec ts d dq = dropWhile (\<lambda>x. ts - fst x > window_sec) (dq @ [(ts, d)])"


subsection \<open>Closing a position\<close>

definition close_record :: "Position \<Rightarrow> int \<Rightarrow> real \<Rightarrow> real \<Rightarrow> string \<Rightarrow> trade" where
  "close_record pos ts price_now pnl reason =
     [(''pool'', VStr (pool pos)),
      (''direction'', VStr (direction pos)),
      (''entry_ts'', VInt (entry_ts pos)),
      (''entry_price'', VFloat (entry_price pos)),
      (''tick_lower'', VInt (tick_lower pos)),
      (''tick_upper'', VInt (tick_upper pos)),
      (''exit_ts'', VInt ts),
      (''exit_price'', VFloat price_now),
      (''fees_usd'', VFloat (fees_usd pos)),
      (''pnl_usd'', VFloat pnl),
      (''reason'', VStr reason)]"

text \<open>
  The nested function \<open>close_position\<close> writes \<open>equity\<close>, \<open>exposure\<close>, \<open>trades\<close>,
  \<open>has_open\<close> and the position object; the model returns the position and the state.
\<close>

definition close_position ::
    "Position \<Rightarrow> int \<Rightarrow> int \<Rightarrow> real \<Rightarrow> string \<Rightarrow> bt_state \<Rightarrow> error + (Position \<times> bt_state)" where
  "close_position pos ts tick_now price_now reason st =
     (case amounts_at_price (L_user pos) (tick_lower pos) (tick_upper pos) tick_now of
        Inl e \<Rightarrow> Inl e
      | Inr (amt0, amt1) \<Rightarrow>
          let val = amt0 + amt1 * price_now;
              pnl = (val - notional pos) + fees_usd pos
          in Inr (pos\<lparr>open_flag := False\<rparr>,
                  st\<lparr>equity := equity st + pnl,
                     exposure := exposure st - notional pos,
                     trades := trades st @ [close_record pos ts price_now pnl reason],
                     has_open := (has_open st)(pool pos := False)\<rparr>))"

subsection \<open>Managing the open positions of the event's pool\<close>

text \<open>The fee accrual block of the loop body (source lines 281 to 287).\<close>

definition accrue_fees :: "row \<Rightarrow> Position \<Rightarrow> error + Position" where
  "accrue_fees r pos =
     (if tick_lower pos \<le> row_tick r \<and> row_tick r < tick_upper pos then
        (case FEE_TIER_MAP (fee pos) of
           None \<Rightarrow> Inl KeyError
         | Some fee_rate \<Rightarrow>
             let L_activa = (case row_liquidity r of Some l \<Rightarrow> l | None \<Rightarrow> 0)
             in (case (if L_activa + L_user pos > 0
                       then py_div (L_user pos) (L_activa + L_user pos) else Inr 0) of
                   Inl e \<Rightarrow> Inl e
                 | Inr share \<Rightarrow>
                     Inr (pos\<lparr>ever_in_range := True,
                             fees_usd := fees_usd pos + row_vol_usd r * fee_rate * share\<rparr>)))
      else Inr pos)"

text \<open>The body of \<open>for pos in list(open_positions)\<close> for one position.\<close>

definition manage_position :: "row \<Rightarrow> Position \<Rightarrow> bt_state \<Rightarrow> error + (Position \<times> bt_state)" where
  "manage_position r pos st =
     (let ts = row_timestamp r; tick = row_tick r; p_pool = row_usd_per_eth r
      in if \<not> open_flag pos \<or> pool pos \<noteq> row_pool r then Inr (pos, st)
         else
           (case py_div (p_pool - entry_price pos) (entry_price pos) of
              Inl e \<Rightarrow> Inl e
            | Inr adverse \<Rightarrow>
                if direction pos = ''down'' \<and> adverse > SL_PCT then
                  close_position pos ts tick p_pool ''stop_loss'' st
                else if direction pos = ''up'' \<and> adverse < - SL_PCT then
                  close_position pos ts tick p_pool ''stop_loss'' st
                else
                  (case accrue_fees r pos of
                     Inl e \<Rightarrow> Inl e
                   | Inr pos1 \<Rightarrow>
                       if direction pos1 = ''down'' then
                         (if ever_in_range pos1 \<and> tick < tick_lower pos1 then
                            close_position pos1 ts tick p_pool ''passed_range'' st
                          else Inr (pos1, st))
                       else
                         (if ever_in_range pos1 \<and> tick \<ge> tick_upper pos1 then
                            close_position pos1 ts tick p_pool ''passed_range'' st
                          else Inr (pos1, st)))))"

text \<open>
  A loop over the position objects: each body call may change the object it visits and
  the shared variables; an exception ends the loop. The list returned holds the objects
  of \<open>open_positions\<close> after the loop, in the same order.
\<close>

fun for_positions ::
    "(Position \<Rightarrow> bt_state \<Rightarrow> error + (Position \<times> bt_state)) \<Rightarrow> Position list \<Rightarrow> bt_state
       \<Rightarrow> error + (Position list \<times> bt_state)" where
  "for_positions body [] st = Inr ([], st)"
| "for_positions body (pos # ps) st =
     (case body pos st of
        Inl e \<Rightarrow> Inl e
      | Inr (pos', st') \<Rightarrow>
          (case for_positions body ps st' of
             Inl e \<Rightarrow> Inl e
           | Inr (ps', st'') \<Rightarrow> Inr (pos' # ps', st'')))"

definition manage_positions :: "row \<Rightarrow> bt_state \<Rightarrow> error + bt_state" where
  "manage_positions r st =
     (case for_positions (manage_position r) (open_positions st) st of
        Inl e \<Rightarrow> Inl e
      | Inr (ps, st') \<Rightarrow> Inr (st'\<lparr>open_positions := ps\<rparr>))"

subsection \<open>Entry signal\<close>

definition open_record :: "string \<Rightarrow> string \<Rightarrow> int \<Rightarrow> real \<Rightarrow> int \<Rightarrow> int \<Rightarrow> real \<Rightarrow> real \<Rightarrow> trade" where
  "open_record pool_name dir ts p_pool tick_l tick_u z z_entry =
     [(''pool'', VStr pool_name),
      (''direction'', VStr dir),
      (''signal_ts'', VInt ts),
      (''signal_price'', VFloat p_pool),
      (''tick_lower'', VInt tick_l),
      (''tick_upper'', VInt tick_u),
      (''action'', VStr ''open''),
      (''note'', VNote z z_entry)]"

definition entry_signal ::
    "real \<Rightarrow> real \<Rightarrow> row \<Rightarrow> real \<Rightarrow> real option \<Rightarrow> bt_state \<Rightarrow> error + bt_state" where
  "entry_signal z_entry target_pct r p_ref z st =
     (let ts = row_timestamp r; pool_name = row_pool r;
          tick = row_tick r; p_pool = row_usd_per_eth r
      in case z of
           None \<Rightarrow> Inr st
         | Some zv \<Rightarrow>
             if \<bar>zv\<bar> > z_entry \<and> \<not> has_open st pool_name then
               if exposure st + POSITION_SIZE_USD \<le> CAPITAL_LIMIT_USD then
                 let dir = (if p_pool > p_ref then ''down'' else ''up'')
                 in case parse_fee_from_pool pool_name of
                      Inl e \<Rightarrow> Inl e
                    | Inr fee_tier \<Rightarrow>
                        (case align_ticks_for_range tick fee_tier target_pct dir of
                           Inl e \<Rightarrow> Inl e
                         | Inr (tick_l, tick_u) \<Rightarrow>
                             (case (if dir = ''down'' then
                                      (case py_div POSITION_SIZE_USD p_pool of
                                         Inl e \<Rightarrow> Inl e
                                       | Inr amount1 \<Rightarrow>
                                           L_from_amounts_single_side tick_l tick_u None (Some amount1))
                                    else
                                      L_from_amounts_single_side tick_l tick_u
                                        (Some POSITION_SIZE_USD) None) of
                                Inl e \<Rightarrow> Inl e
                              | Inr L \<Rightarrow>
                                  let pos = \<lparr> pool = pool_name, fee = fee_tier, direction = dir,
                                              entry_ts = ts, entry_tick = tick, entry_price = p_pool,
                                              tick_lower = tick_l, tick_upper = tick_u, L_user = L,
                                              notional = POSITION_SIZE_USD, ever_in_range = False,
                                              open_flag = True, fees_usd = 0 \<rparr>
                                  in Inr (st\<lparr>open_positions := open_positions st @ [pos],
                                            has_open := (has_open st)(pool_name := True),
                                            exposure := exposure st + POSITION_SIZE_USD,
                                            trades := trades st @
                                              [open_record pool_name dir ts p_pool tick_l tick_u
                                                 zv z_entry]\<rparr>)))
               else Inr st
             else Inr st)"

subsection \<open>One event, and the event loop\<close>

text \<open>The two writes at the head of the loop body, and the update of the pool's window.\<close>

definition update_latest :: "row \<Rightarrow> bt_state \<Rightarrow> bt_state" where
  "update_latest r st =
     st\<lparr>latest_price := AList.update (row_pool r) (row_usd_per_eth r) (latest_price st),
        latest_tick := AList.update (row_pool r) (row_tick r) (latest_tick st)\<rparr>"

definition record_deviation :: "int \<Rightarrow> row \<Rightarrow> real \<Rightarrow> bt_state \<Rightarrow> bt_state" where
  "record_deviation window_sec r d st =
     st\<lparr>diffs_by_pool := (diffs_by_pool st)
          (row_pool r := push_window window_sec (row_timestamp r) d (diffs_by_pool st (row_pool r)))\<rparr>"

definition step :: "real \<Rightarrow> int \<Rightarrow> real \<Rightarrow> bt_state \<Rightarrow> row \<Rightarrow> error + bt_state" where
  "step z_entry window_min target_pct st r =
     (let window_sec = window_min * 60;
          st1 = update_latest r st
      in if length (latest_price st1) \<ge> MIN_POOLS_FOR_REF then
           let p_ref = np_median (map snd (latest_price st1));
               d = row_usd_per_eth r - p_ref;
               st2 = record_deviation window_sec r d st1;
               vals = map snd (diffs_by_pool st2 (row_pool r))
           in case zscore d vals of
                Inl e \<Rightarrow> Inl e
              | Inr z \<Rightarrow>
                  (case manage_positions r st2 of
                     Inl e \<Rightarrow> Inl e
                   | Inr st3 \<Rightarrow> entry_signal z_entry target_pct r p_ref z st3)
         else Inr st1)"

fun run_rows :: "real \<Rightarrow> int \<Rightarrow> real \<Rightarrow> bt_state \<Rightarrow> row list \<Rightarrow> error + bt_state" where
  "run_rows z_entry window_min target_pct st [] = Inr st"
| "run_rows z_entry window_min target_pct st (r # rs) =
     (case step z_entry window_min target_pct st r of
        Inl e \<Rightarrow> Inl e
      | Inr st' \<Rightarrow> run_rows z_entry window_min target_pct st' rs)"

subsection \<open>End of data\<close>

text \<open>\<open>all_df.groupby("pool")[col].last().to_dict()\<close>, read with \<open>.get\<close>.\<close>

definition last_by_pool :: "row list \<Rightarrow> (row \<Rightarrow> 'a) \<Rightarrow> string \<Rightarrow> 'a option" where
  "last_by_pool all_df col p =
     (case filter (\<lambda>r. row_pool r = p) all_df of
        [] \<Rightarrow> None
      | rs \<Rightarrow> Some (col (last rs)))"

definition eod_position :: "row list \<Rightarrow> Position \<Rightarrow> bt_state \<Rightarrow> error + (Position \<times> bt_state)" where
  "eod_position all_df pos st =
     (if open_flag pos then
        let p = (case last_by_pool all_df row_usd_per_eth (pool pos) of
                   Some v \<Rightarrow> v | None \<Rightarrow> entry_price pos);
            t = (case last_by_pool all_df row_timestamp (pool pos) of
                   Some v \<Rightarrow> v | None \<Rightarrow> entry_ts pos);
            tk = (case last_by_pool all_df row_tick (pool pos) of
                    Some v \<Rightarrow> v | None \<Rightarrow> entry_tick pos)
        in case amounts_at_price (L_user pos) (tick_lower pos) (tick_upper pos) tk of
             Inl e \<Rightarrow> Inl e
           | Inr (amt0, amt1) \<Rightarrow>
               let val = amt0 + amt1 * p;
                   pnl = (val - notional pos) + fees_usd pos
               in Inr (pos\<lparr>open_flag := False\<rparr>,
                       st\<lparr>equity := equity st + pnl,
                          exposure := exposure st - notional pos,
                          trades := trades st @ [close_record pos t p pnl ''eod'']\<rparr>)
      else Inr (pos, st))"

definition eod_close :: "row list \<Rightarrow> bt_state \<Rightarrow> error + bt_state" where
  "eod_close all_df st =
     (case for_positions (eod_position all_df) (open_positions st) st of
        Inl e \<Rightarrow> Inl e
      | Inr (ps, st') \<Rightarrow> Inr (st'\<lparr>open_positions := ps\<rparr>))"

subsection \<open>The whole run and the grid search\<close>

record metrics =
  m_z_entry :: real
  m_window_min :: int
  m_range_pct :: real
  m_equity_usd :: real
  m_roi_on_20k :: real
  m_num_trades :: nat

type_synonym payload = "metrics \<times> trade list"

text \<open>The state when the event loop and the end-of-data pass are over.\<close>

definition final_state :: "row list \<Rightarrow> real \<Rightarrow> int \<Rightarrow> real \<Rightarrow> error + bt_state" where
  "final_state all_df z_entry window_min target_pct =
     (case run_rows z_entry window_min target_pct init_state all_df of
        Inl e \<Rightarrow> Inl e
      | Inr st \<Rightarrow> eod_close all_df st)"

definition backtest_lp :: "row list \<Rightarrow> real \<Rightarrow> int \<Rightarrow> real \<Rightarrow> error + (real \<times> payload)" where
  "backtest_lp all_df z_entry window_min target_pct =
     (case final_state all_df z_entry window_min target_pct of
        Inl e \<Rightarrow> Inl e
      | Inr st \<Rightarrow>
          let roi = equity st / CAPITAL_LIMIT_USD;
              m = \<lparr> m_z_entry = z_entry, m_window_min = window_min, m_range_pct = target_pct,
                    m_equity_usd = equity st, m_roi_on_20k = roi,
                    m_num_trades =
                      length (filter (\<lambda>t. map_of t ''action'' \<noteq> Some (VStr ''open'')) (trades st)) \<rparr>
          in Inr (roi, (m, trades st)))"

text \<open>
  The three nested loops of \<open>main\<close>; \<open>best\<close>, \<open>best_tuple\<close> and \<open>best_payload\<close> are
  written together, so they are one optional triple.
\<close>

type_synonym best = "(real \<times> (real \<times> int \<times> real) \<times> payload) option"

fun loop_rpct :: "row list \<Rightarrow> int \<Rightarrow> real \<Rightarrow> real list \<Rightarrow> best \<Rightarrow> error + best" where
  "loop_rpct df W z [] b = Inr b"
| "loop_rpct df W z (rpct # rs) b =
     (case backtest_lp df z W rpct of
        Inl e \<Rightarrow> Inl e
      | Inr (roi, pl) \<Rightarrow>
          loop_rpct df W z rs
            (case b of
               None \<Rightarrow> Some (roi, (z, W, rpct), pl)
             | Some (best_roi, _) \<Rightarrow>
                 if roi > best_roi then Some (roi, (z, W, rpct), pl) else b))"

fun loop_z :: "row list \<Rightarrow> int \<Rightarrow> real list \<Rightarrow> real list \<Rightarrow> best \<Rightarrow> error + best" where
  "loop_z df W [] rcand b = Inr b"
| "loop_z df W (z # zs) rcand b =
     (case loop_rpct df W z rcand b of
        Inl e \<Rightarrow> Inl e
      | Inr b' \<Rightarrow> loop_z df W zs rcand b')"

fun loop_W :: "row list \<Rightarrow> int list \<Rightarrow> real list \<Rightarrow> real list \<Rightarrow> best \<Rightarrow> error + best" where
  "loop_W df [] zcand rcand b = Inr b"
| "loop_W df (W # Ws) zcand rcand b =
     (case loop_z df W zcand rcand b of
        Inl e \<Rightarrow> Inl e
      | Inr b' \<Rightarrow> loop_W df Ws zcand rcand b')"

text \<open>
  \<open>main\<close> after loading: the grid search and the unpacking of \<open>best_tuple\<close>, which
  raises \<open>TypeError\<close> on \<open>None\<close>.
\<close>

definition grid_search :: "row list \<Rightarrow> error + (real \<times> (real \<times> int \<times> real) \<times> payload)" where
  "grid_search df =
     (case loop_W df WINDOW_MINUTES Z_CANDIDATES RANGE_PCT_CAND None of
        Inl e \<Rightarrow> Inl e
      | Inr None \<Rightarrow> Inl TypeError
      | Inr (Some b) \<Rightarrow> Inr b)"

subsection \<open>The range as the specification words it\<close>

text \<open>
  The specification's \<open>plan_range\<close>, word for word, for comparison with
  \<open>align_ticks_for_range\<close>: the lower bound of an \<open>Above\<close> range is written there with
  a ceiling.
\<close>

definition plan_range_as_specified :: "int \<Rightarrow> int \<Rightarrow> real \<Rightarrow> string \<Rightarrow> int \<times> int" where
  "plan_range_as_specified t s target_pct dir =
     (let width_ticks = max \<lceil>ln (1 + target_pct) / ln (10001 / 10000)\<rceil> s;
          rd = \<lfloor>real_of_int width_ticks / real_of_int s\<rfloor> * s
      in if dir = ''down'' then
           let upper = \<lfloor>real_of_int t / real_of_int s\<rfloor> * s - s in (upper - rd, upper)
         else
           let lower = \<lceil>real_of_int (t + s) / real_of_int s\<rceil> * s in (lower, lower + rd))"

subsection \<open>Notions used to state the properties\<close>

text \<open>The fields of a position that are written once, when it is created.\<close>

definition same_entry_fields :: "Position \<Rightarrow> Position \<Rightarrow> bool" where
  "same_entry_fields a b \<longleftrightarrow>
     pool a = pool b \<and> fee a = fee b \<and> direction a = direction b
     \<and> entry_ts a = entry_ts b \<and> entry_tick a = entry_tick b
     \<and> entry_price a = entry_price b \<and> tick_lower a = tick_lower b
     \<and> tick_upper a = tick_upper b \<and> L_user a = L_user b \<and> notional a = notional b"

text \<open>The notional a position binds, and whether it is the open position of a pool.\<close>

definition open_notional :: "Position \<Rightarrow> real" where
  "open_notional pos = (if open_flag pos then notional pos else 0)"

definition open_on :: "string \<Rightarrow> Position \<Rightarrow> nat" where
  "open_on p pos = (if open_flag pos \<and> pool pos = p then 1 else 0)"

text \<open>What a closure by the loop body does to the shared variables.\<close>

definition closed_by :: "row \<Rightarrow> Position \<Rightarrow> bt_state \<Rightarrow> bt_state \<Rightarrow> bool" where
  "closed_by r pos st st' \<longleftrightarrow>
     (\<exists>pnl reason pos1. reason \<in> {''stop_loss'', ''passed_range''}
        \<and> st' = st\<lparr>equity := equity st + pnl,
                    exposure := exposure st - notional pos,
                    trades := trades st @ [close_record pos1 (row_timestamp r) (row_usd_per_eth r) pnl reason],
                    has_open := (has_open st)(pool pos := False)\<rparr>)"

text \<open>
  The end-of-data closure as the specification words it: the exit row of a position is
  the last row of its own pool, the position is valued there with \<open>amounts_at_price\<close>.
\<close>

definition last_row :: "row list \<Rightarrow> string \<Rightarrow> row" where
  "last_row all_df p = last (filter (\<lambda>r. row_pool r = p) all_df)"

definition eod_pnl :: "row list \<Rightarrow> Position \<Rightarrow> real" where
  "eod_pnl all_df pos =
     (let r = last_row all_df (pool pos)
      in case amounts_at_price (L_user pos) (tick_lower pos) (tick_upper pos) (row_tick r) of
           Inr (amt0, amt1) \<Rightarrow> ((amt0 + amt1 * row_usd_per_eth r) - notional pos) + fees_usd pos
         | Inl _ \<Rightarrow> 0)"

definition eod_trade :: "row list \<Rightarrow> Position \<Rightarrow> trade" where
  "eod_trade all_df pos =
     (let r = last_row all_df (pool pos)
      in close_record pos (row_timestamp r) (row_usd_per_eth r) (eod_pnl all_df pos) ''eod'')"

text \<open>The grid in its iteration order, and the roi of the run of one combination.\<close>

definition grid :: "int list \<Rightarrow> real list \<Rightarrow> real list \<Rightarrow> (int \<times> real \<times> real) list" where
  "grid Ws zs rs = concat (map (\<lambda>W. concat (map (\<lambda>z. map (\<lambda>rpct. (W, z, rpct)) rs) zs)) Ws)"

definition roi_of :: "row list \<Rightarrow> int \<times> real \<times> real \<Rightarrow> real" where
  "roi_of df c =
     (case c of (W, z, rpct) \<Rightarrow>
        (case backtest_lp df z W rpct of Inr (roi, _) \<Rightarrow> roi | Inl _ \<Rightarrow> 0))"

text \<open>The two shapes of a record in the trade log.\<close>

definition is_close_record :: "trade \<Rightarrow> bool" where
  "is_close_record t \<longleftrightarrow>
     map_of t ''reason'' \<in> {Some (VStr ''stop_loss''), Some (VStr ''passed_range''),
                            Some (VStr ''eod'')}
     \<and> map_of t ''action'' = None"

definition is_open_record :: "trade \<Rightarrow> bool" where
  "is_open_record t \<longleftrightarrow>
     map_of t ''reason'' = None \<and> map_of t ''action'' = Some (VStr ''open'')"

subsection \<open>Invariants of the event loop\<close>

text \<open>
  The exposure counter is the sum of the notionals that the open positions bind, every
  notional is the fixed position size and the counter is within the capital limit; the
  open flag of a pool counts its open positions; every record of the trade log has one of
  the two shapes; positions exist only once the reference price is valid.
\<close>

definition exposure_inv :: "bt_state \<Rightarrow> bool" where
  "exposure_inv st \<longleftrightarrow>
     exposure st = sum_list (map open_notional (open_positions st))
     \<and> (\<forall>pos \<in> set (open_positions st). notional pos = POSITION_SIZE_USD)
     \<and> exposure st \<le> CAPITAL_LIMIT_USD"

definition pool_inv :: "bt_state \<Rightarrow> bool" where
  "pool_inv st \<longleftrightarrow>
     (\<forall>p. (if has_open st p then 1 else 0) = sum_list (map (open_on p) (open_positions st)))"

definition trades_inv :: "bt_state \<Rightarrow> bool" where
  "trades_inv st \<longleftrightarrow> (\<forall>t \<in> set (trades st). is_close_record t \<or> is_open_record t)"

definition warm_inv :: "bt_state \<Rightarrow> bool" where
  "warm_inv st \<longleftrightarrow> (open_positions st \<noteq> [] \<longrightarrow> MIN_POOLS_FOR_REF \<le> length (latest_price st))"

subsection \<open>The grid search as one scan\<close>

text \<open>
  The scan of a flat list of combinations with the update of \<open>best\<close> that the
  innermost loop does, whether the run of a combination returns, and the comparison of
  the incumbent's roi with a value.
\<close>

fun scan :: "row list \<Rightarrow> (int \<times> real \<times> real) list \<Rightarrow> best \<Rightarrow> error + best" where
  "scan df [] b = Inr b"
| "scan df ((W, z, rpct) # cs) b =
     (case backtest_lp df z W rpct of
        Inl e \<Rightarrow> Inl e
      | Inr (roi, pl) \<Rightarrow>
          scan df cs
            (case b of
               None \<Rightarrow> Some (roi, (z, W, rpct), pl)
             | Some (best_roi, _) \<Rightarrow>
                 if roi > best_roi then Some (roi, (z, W, rpct), pl) else b))"

definition run_ok :: "row list \<Rightarrow> int \<times> real \<times> real \<Rightarrow> bool" where
  "run_ok df c = (case c of (W, z, rpct) \<Rightarrow>
                   (case backtest_lp df z W rpct of Inr _ \<Rightarrow> True | Inl _ \<Rightarrow> False))"

definition best_roi_le :: "best \<Rightarrow> real \<Rightarrow> bool" where
  "best_roi_le b x = (case b of None \<Rightarrow> True | Some (r, _) \<Rightarrow> r \<le> x)"

definition best_roi_less :: "best \<Rightarrow> real \<Rightarrow> bool" where
  "best_roi_less b x = (case b of None \<Rightarrow> True | Some (r, _) \<Rightarrow> r < x)"

subsection \<open>A scripted run\<close>

text \<open>
  Rows as \<open>load_events\<close> builds them (the price column is computed from the tick), for
  three pools of fee tier 500. Two pools are seen once, the third nine times at tick 0
  (\<open>warmup_rows\<close>, ending in \<open>warm_state\<close>) and then at tick \<open>-1\<close>
  (\<open>signal_row\<close>): with \<open>z_entry = 1.5\<close>, a window of 10 minutes and a target of
  0.1 percent this twelfth row opens a position below the price (\<open>signal_state\<close>).
  A row at tick \<open>-25\<close> is inside the range and accrues fees (\<open>inrange_state\<close>); a row
  at tick \<open>-300\<close> is more than two percent adverse and beyond the range
  (\<open>crash_row\<close>). \<open>flat_row\<close> is a twelfth row that stays at tick 0.
\<close>

definition swap_row :: "int \<Rightarrow> string \<Rightarrow> int \<Rightarrow> row" where
  "swap_row ts pool_name tick =
     \<lparr> row_timestamp = ts, row_pool = pool_name, row_tick = tick,
       row_usd_per_eth = usd_per_eth_from_tick tick,
       row_liquidity = Some 1000000, row_vol_usd = 5000 \<rparr>"

definition warmup_rows :: "row list" where
  "warmup_rows =
     [swap_row 1 ''USDTETH500'' 0, swap_row 2 ''DAIETH500'' 0,
      swap_row 3 ''USDCETH500'' 0, swap_row 4 ''USDCETH500'' 0, swap_row 5 ''USDCETH500'' 0,
      swap_row 6 ''USDCETH500'' 0, swap_row 7 ''USDCETH500'' 0, swap_row 8 ''USDCETH500'' 0,
      swap_row 9 ''USDCETH500'' 0, swap_row 10 ''USDCETH500'' 0, swap_row 11 ''USDCETH500'' 0]"

definition signal_row :: row where
  "signal_row = swap_row 12 ''USDCETH500'' (-1)"

definition warm_state :: bt_state where
  "warm_state =
     \<lparr> latest_price = [(''USDTETH500'', 1), (''DAIETH500'', 1), (''USDCETH500'', 1)],
       latest_tick = [(''USDTETH500'', 0), (''DAIETH500'', 0), (''USDCETH500'', 0)],
       diffs_by_pool = (\<lambda>_. [])(''USDCETH500'' :=
          [(3, 0), (4, 0), (5, 0), (6, 0), (7, 0), (8, 0), (9, 0), (10, 0), (11, 0)]),
       open_positions = [], equity = 0, exposure = 0, trades = [],
       has_open = (\<lambda>_. False) \<rparr>"

definition signal_z :: real where
  "signal_z = (9 / 100000) / sqrt (1 / 10 ^ 9)"

definition signal_L :: real where
  "signal_L = (1000 / (10001 / 10000))
               / (sqrt_ratio_from_tick (- 20) - sqrt_ratio_from_tick (- 30))"

definition signal_pos :: Position where
  "signal_pos =
     \<lparr> pool = ''USDCETH500'', fee = 500, direction = ''down'', entry_ts = 12,
       entry_tick = - 1, entry_price = 10001 / 10000, tick_lower = - 30, tick_upper = - 20,
       L_user = signal_L, notional = 1000, ever_in_range = False, open_flag = True,
       fees_usd = 0 \<rparr>"

definition signal_state :: bt_state where
  "signal_state =
     \<lparr> latest_price = [(''USDTETH500'', 1), (''DAIETH500'', 1), (''USDCETH500'', 10001 / 10000)],
       latest_tick = [(''USDTETH500'', 0), (''DAIETH500'', 0), (''USDCETH500'', - 1)],
       diffs_by_pool = (\<lambda>_. [])(''USDCETH500'' :=
          [(3, 0), (4, 0), (5, 0), (6, 0), (7, 0), (8, 0), (9, 0), (10, 0), (11, 0),
           (12, 1 / 10000)]),
       open_positions = [signal_pos], equity = 0, exposure = 1000,
       trades = [open_record ''USDCETH500'' ''down'' 12 (10001 / 10000) (- 30) (- 20)
                   signal_z (3 / 2)],
       has_open = (\<lambda>_. False)(''USDCETH500'' := True) \<rparr>"

definition inrange_row :: row where
  "inrange_row = swap_row 13 ''USDCETH500'' (- 25)"

definition inrange_pos :: Position where
  "inrange_pos = signal_pos\<lparr>ever_in_range := True,
      fees_usd := 5000 * (5 / 10000) * (signal_L / (1000000 + signal_L))\<rparr>"

definition inrange_state :: bt_state where
  "inrange_state =
     signal_state\<lparr>
       latest_price := [(''USDTETH500'', 1), (''DAIETH500'', 1),
                        (''USDCETH500'', (10001 / 10000) ^ 25)],
       latest_tick := [(''USDTETH500'', 0), (''DAIETH500'', 0), (''USDCETH500'', - 25)],
       diffs_by_pool := (\<lambda>_. [])(''USDCETH500'' :=
          [(3, 0), (4, 0), (5, 0), (6, 0), (7, 0), (8, 0), (9, 0), (10, 0), (11, 0),
           (12, 1 / 10000), (13, (10001 / 10000) ^ 25 - 1)]),
       open_positions := [inrange_pos]\<rparr>"

definition crash_row :: row where
  "crash_row = swap_row 14 ''USDCETH500'' (- 300)"

definition flat_row :: row where
  "flat_row = swap_row 12 ''USDCETH500'' 0"

section \<open>Verification\<close>

subsection \<open>Price model: basic facts\<close>

lemma sqrt_ratio_pos: "0 < sqrt_ratio_from_tick t"
  by (simp add: sqrt_ratio_from_tick_def)

lemma sqrt_ratio_strict_mono:
  "tick_l < tick_u \<Longrightarrow> sqrt_ratio_from_tick tick_l < sqrt_ratio_from_tick tick_u"
  by (simp add: sqrt_ratio_from_tick_def)

lemma amounts_at_price_total:
  "amounts_at_price L tick_l tick_u tick_now =
     Inr (let sa = sqrt_ratio_from_tick tick_l;
              sb = sqrt_ratio_from_tick tick_u;
              s = sqrt_ratio_from_tick tick_now
          in if tick_now \<le> tick_l then (L * (sb - sa) / (sa * sb), 0)
             else if tick_now \<ge> tick_u then (0, L * (sb - sa))
             else (L * (sb - s) / (s * sb), L * (s - sa)))"
proof -
  have "sqrt_ratio_from_tick tick_l * sqrt_ratio_from_tick tick_u \<noteq> 0"
       "sqrt_ratio_from_tick tick_now * sqrt_ratio_from_tick tick_u \<noteq> 0"
    using sqrt_ratio_pos [of tick_l] sqrt_ratio_pos [of tick_u] sqrt_ratio_pos [of tick_now]
    by simp_all
  then show ?thesis
    by (simp add: amounts_at_price_def py_div_def Let_def)
qed

lemma tick_spacing_pos: "TICK_SPACING_MAP f = Some s \<Longrightarrow> 0 < s"
  by (auto simp: TICK_SPACING_MAP_def split: if_splits)

lemma width_ticks_10: "\<lceil>ln (1001 / 1000) / ln (10001 / 10000 :: real)\<rceil> = 10"
proof -
  have pos: "0 < ln (10001 / 10000 :: real)" by simp
  have up: "ln (1001 / 1000 :: real) \<le> 10 * ln (10001 / 10000)"
  proof -
    have "(1001 / 1000 :: real) \<le> (10001 / 10000) ^ 10"
      by (simp add: power_divide)
    then have "ln (1001 / 1000 :: real) \<le> ln ((10001 / 10000) ^ 10)"
      by (subst ln_le_cancel_iff) simp_all
    then show ?thesis by (simp add: ln_realpow)
  qed
  have lo: "9 * ln (10001 / 10000 :: real) < ln (1001 / 1000)"
  proof -
    have "(10001 / 10000 :: real) ^ 9 < 1001 / 1000"
      by (simp add: power_divide)
    then have "ln ((10001 / 10000 :: real) ^ 9) < ln (1001 / 1000)"
      by (subst ln_less_cancel_iff) simp_all
    then show ?thesis by (simp add: ln_realpow)
  qed
  have "ln (1001 / 1000 :: real) / ln (10001 / 10000) \<le> 10"
    using up pos by (simp add: field_simps)
  moreover have "9 < ln (1001 / 1000 :: real) / ln (10001 / 10000)"
    using lo pos by (simp add: field_simps)
  ultimately show ?thesis by (simp add: ceiling_eq_iff)
qed

lemma amounts_at_price_ex: "\<exists>a b. amounts_at_price L t_l t_u t_n = Inr (a, b)"
  by (simp add: amounts_at_price_total Let_def)

lemma usd_per_eth_from_tick_0: "usd_per_eth_from_tick 0 = 1"
  by (simp add: usd_per_eth_from_tick_def)

lemma usd_per_eth_from_tick_m1: "usd_per_eth_from_tick (- 1) = 10001 / 10000"
  by (simp add: usd_per_eth_from_tick_def)

lemma usd_per_eth_from_tick_neg: "usd_per_eth_from_tick (- int n) = (10001 / 10000) ^ n"
proof -
  have "usd_per_eth_from_tick (- int n) = exp (real n * ln (10001 / 10000))"
    by (simp add: usd_per_eth_from_tick_def)
  also have "\<dots> = exp (ln (10001 / 10000)) ^ n"
    by (rule exp_of_nat_mult)
  finally show ?thesis by simp
qed

lemma usd_per_eth_from_tick_m25: "usd_per_eth_from_tick (- 25) = (10001 / 10000) ^ 25"
  using usd_per_eth_from_tick_neg [of 25] by simp

lemma usd_per_eth_from_tick_m300: "usd_per_eth_from_tick (- 300) = (10001 / 10000) ^ 300"
  using usd_per_eth_from_tick_neg [of 300] by simp

lemma align_ticks_lower_less_upper:
  assumes "align_ticks_for_range t f tp dir = Inr (l, u)"
  shows "l < u"
proof -
  from assms obtain s where s: "TICK_SPACING_MAP f = Some s"
    by (auto simp: align_ticks_for_range_def split: option.splits)
  then have "0 < s" by (rule tick_spacing_pos)
  then show ?thesis
    using assms s
    by (auto simp: align_ticks_for_range_def Let_def split: if_splits)
qed

lemma align_ticks_total:
  assumes "TICK_SPACING_MAP f = Some s" and "0 < 1 + tp"
  shows "\<exists>l u. align_ticks_for_range t f tp dir = Inr (l, u)"
  using assms by (simp add: align_ticks_for_range_def Let_def)

subsection \<open>The loop body, the position loops and the event step\<close>

lemma close_position_Inr:
  "\<exists>pnl. close_position pos ts tk p reason st =
     Inr (pos\<lparr>open_flag := False\<rparr>,
          st\<lparr>equity := equity st + pnl,
             exposure := exposure st - notional pos,
             trades := trades st @ [close_record pos ts p pnl reason],
             has_open := (has_open st)(pool pos := False)\<rparr>)"
proof -
  obtain a b where "amounts_at_price (L_user pos) (tick_lower pos) (tick_upper pos) tk = Inr (a, b)"
    using amounts_at_price_ex by blast
  then show ?thesis
    by (intro exI [of _ "(a + b * p - notional pos) + fees_usd pos"])
       (simp add: close_position_def Let_def)
qed

lemma accrue_fees_frame:
  "accrue_fees r pos = Inr pos1 \<Longrightarrow> same_entry_fields pos pos1 \<and> open_flag pos1 = open_flag pos"
  by (auto simp: accrue_fees_def Let_def same_entry_fields_def split: if_splits option.splits sum.splits)

lemma close_position_closed_by:
  assumes "close_position pos1 (row_timestamp r) (row_tick r) (row_usd_per_eth r) reason st = Inr (p', s')"
    and "reason \<in> {''stop_loss'', ''passed_range''}" and "same_entry_fields pos pos1"
  shows "same_entry_fields pos p' \<and> \<not> open_flag p' \<and> closed_by r pos st s'"
proof -
  obtain pnl where "close_position pos1 (row_timestamp r) (row_tick r) (row_usd_per_eth r) reason st =
     Inr (pos1\<lparr>open_flag := False\<rparr>,
          st\<lparr>equity := equity st + pnl,
             exposure := exposure st - notional pos1,
             trades := trades st @ [close_record pos1 (row_timestamp r) (row_usd_per_eth r) pnl reason],
             has_open := (has_open st)(pool pos1 := False)\<rparr>)"
    using close_position_Inr by blast
  with assms(1) have p': "p' = pos1\<lparr>open_flag := False\<rparr>"
    and s': "s' = st\<lparr>equity := equity st + pnl,
             exposure := exposure st - notional pos1,
             trades := trades st @ [close_record pos1 (row_timestamp r) (row_usd_per_eth r) pnl reason],
             has_open := (has_open st)(pool pos1 := False)\<rparr>" by simp_all
  have eq: "notional pos1 = notional pos" "pool pos1 = pool pos"
    using assms(3) by (simp_all add: same_entry_fields_def)
  have "closed_by r pos st s'"
    unfolding closed_by_def s' eq using assms(2) by blast
  moreover have "same_entry_fields pos p'" using assms(3) by (simp add: p' same_entry_fields_def)
  ultimately show ?thesis by (simp add: p')
qed

lemma manage_position_cases:
  assumes "manage_position r pos st = Inr (pos', st')"
  shows "same_entry_fields pos pos' \<and>
     ((st' = st \<and> open_flag pos' = open_flag pos)
      \<or> (open_flag pos \<and> pool pos = row_pool r \<and> \<not> open_flag pos' \<and> closed_by r pos st st'))"
proof (cases "\<not> open_flag pos \<or> pool pos \<noteq> row_pool r")
  case True
  with assms show ?thesis by (auto simp: manage_position_def same_entry_fields_def)
next
  case False
  then have op: "open_flag pos" "pool pos = row_pool r" by auto
  have refl: "same_entry_fields pos pos" by (simp add: same_entry_fields_def)
  note acc = accrue_fees_frame
  show ?thesis
    using assms op
    by (auto simp: manage_position_def Let_def py_div_def 
        split: if_splits sum.splits dest: close_position_closed_by[OF _ _ refl] acc close_position_closed_by)
qed

lemma for_positions_list_all2:
  assumes "\<And>pos st pos' st'. body pos st = Inr (pos', st') \<Longrightarrow> P pos pos'"
    and "for_positions body ps st = Inr (ps', st')"
  shows "list_all2 P ps ps'"
  using assms(2)
proof (induction ps arbitrary: st ps' st')
  case Nil
  then show ?case by simp
next
  case (Cons pos ps)
  then show ?case
    by (auto split: sum.splits dest: assms(1))
qed

lemma for_positions_counting:
  fixes f :: "bt_state \<Rightarrow> 'a::comm_monoid_add"
  assumes body: "\<And>pos st pos' st' k. pos \<in> set ps \<Longrightarrow> body pos st = Inr (pos', st')
                   \<Longrightarrow> f st = g pos + k \<Longrightarrow> f st' = g pos' + k"
    and run: "for_positions body ps st = Inr (ps', st')"
    and start: "f st = sum_list (map g ps) + c"
  shows "f st' = sum_list (map g ps') + c"
  using assms
proof (induction ps arbitrary: st ps' st' c)
  case Nil
  then show ?case by simp
next
  case (Cons pos ps)
  from Cons.prems(2) obtain pos1 st1 ps1 where
    b: "body pos st = Inr (pos1, st1)" and
    r: "for_positions body ps st1 = Inr (ps1, st')" and
    e: "ps' = pos1 # ps1"
    by (auto split: sum.splits)
  have "f st = g pos + (sum_list (map g ps) + c)"
    using Cons.prems(3) by (simp add: add.assoc)
  then have "f st1 = g pos1 + (sum_list (map g ps) + c)"
    using Cons.prems(1) [OF _ b] by simp
  then have f1: "f st1 = sum_list (map g ps) + (g pos1 + c)"
    by (simp add: add.left_commute)
  have bd: "\<And>p s p' s' k. p \<in> set ps \<Longrightarrow> body p s = Inr (p', s')
                   \<Longrightarrow> f s = g p + k \<Longrightarrow> f s' = g p' + k"
    using Cons.prems(1) by (meson list.set_intros(2))
  have "f st' = sum_list (map g ps1) + (g pos1 + c)"
    using Cons.IH [OF bd r f1] .
  then show ?case by (simp add: e ac_simps)
qed

lemma for_positions_state_inv:
  assumes body: "\<And>pos st pos' st'. pos \<in> set ps \<Longrightarrow> Q st \<Longrightarrow> body pos st = Inr (pos', st') \<Longrightarrow> Q st'"
    and run: "for_positions body ps st = Inr (ps', st')"
    and start: "Q st"
  shows "Q st'"
  using assms
proof (induction ps arbitrary: st ps' st')
  case Nil
  then show ?case by simp
next
  case (Cons pos ps)
  from Cons.prems(2) obtain pos1 st1 ps1 where
    b: "body pos st = Inr (pos1, st1)" and
    r: "for_positions body ps st1 = Inr (ps1, st')"
    by (auto split: sum.splits)
  have q1: "Q st1" using Cons.prems(1) [OF _ Cons.prems(3) b] by simp
  have bd: "\<And>p s p' s'. p \<in> set ps \<Longrightarrow> Q s \<Longrightarrow> body p s = Inr (p', s') \<Longrightarrow> Q s'"
    using Cons.prems(1) by (meson list.set_intros(2))
  from Cons.IH [OF bd r q1] show ?case .
qed

lemma for_positions_total:
  assumes "\<And>pos st. \<exists>pos' st'. body pos st = Inr (pos', st')"
  shows "\<exists>ps' st'. for_positions body ps st = Inr (ps', st')"
proof (induction ps arbitrary: st)
  case Nil
  then show ?case by simp
next
  case (Cons pos ps)
  obtain pos1 st1 where b: "body pos st = Inr (pos1, st1)" using assms by blast
  obtain ps1 st2 where "for_positions body ps st1 = Inr (ps1, st2)" using Cons.IH by blast
  with b show ?case by simp
qed

lemma manage_positions_Inr:
  assumes "manage_positions r st = Inr st'"
  obtains ps' s' where "for_positions (manage_position r) (open_positions st) st = Inr (ps', s')"
    and "st' = s'\<lparr>open_positions := ps'\<rparr>"
  using assms by (auto simp: manage_positions_def split: sum.splits)

lemma entry_signal_cases:
  assumes "entry_signal z_entry target_pct r p_ref z st = Inr st'"
  shows "st' = st \<or>
     (\<exists>pos zv. z = Some zv \<and> \<bar>zv\<bar> > z_entry \<and> \<not> has_open st (row_pool r)
        \<and> exposure st + POSITION_SIZE_USD \<le> CAPITAL_LIMIT_USD
        \<and> pool pos = row_pool r \<and> open_flag pos \<and> notional pos = POSITION_SIZE_USD
        \<and> entry_ts pos = row_timestamp r \<and> entry_tick pos = row_tick r
        \<and> entry_price pos = row_usd_per_eth r
        \<and> \<not> ever_in_range pos \<and> fees_usd pos = 0
        \<and> direction pos = (if row_usd_per_eth r > p_ref then ''down'' else ''up'')
        \<and> st' = st\<lparr>open_positions := open_positions st @ [pos],
                     has_open := (has_open st)(row_pool r := True),
                     exposure := exposure st + POSITION_SIZE_USD,
                     trades := trades st @
                       [open_record (row_pool r) (direction pos) (row_timestamp r)
                          (row_usd_per_eth r) (tick_lower pos) (tick_upper pos) zv z_entry]\<rparr>)"
proof (cases "st' = st")
  case True
  then show ?thesis by simp
next
  case False
  define pos where "pos = last (open_positions st')"
  have "\<exists>zv. z = Some zv \<and> \<bar>zv\<bar> > z_entry \<and> \<not> has_open st (row_pool r)
        \<and> exposure st + POSITION_SIZE_USD \<le> CAPITAL_LIMIT_USD
        \<and> pool pos = row_pool r \<and> open_flag pos \<and> notional pos = POSITION_SIZE_USD
        \<and> entry_ts pos = row_timestamp r \<and> entry_tick pos = row_tick r
        \<and> entry_price pos = row_usd_per_eth r
        \<and> \<not> ever_in_range pos \<and> fees_usd pos = 0
        \<and> direction pos = (if row_usd_per_eth r > p_ref then ''down'' else ''up'')
        \<and> st' = st\<lparr>open_positions := open_positions st @ [pos],
                     has_open := (has_open st)(row_pool r := True),
                     exposure := exposure st + POSITION_SIZE_USD,
                     trades := trades st @
                       [open_record (row_pool r) (direction pos) (row_timestamp r)
                          (row_usd_per_eth r) (tick_lower pos) (tick_upper pos) zv z_entry]\<rparr>"
    using assms False
    unfolding entry_signal_def Let_def pos_def
    by (auto split: option.splits if_splits sum.splits prod.splits)
  then show ?thesis by blast
qed

lemma update_latest_fields [simp]:
  "open_positions (update_latest r st) = open_positions st"
  "exposure (update_latest r st) = exposure st"
  "equity (update_latest r st) = equity st"
  "trades (update_latest r st) = trades st"
  "has_open (update_latest r st) = has_open st"
  "diffs_by_pool (update_latest r st) = diffs_by_pool st"
  by (simp_all add: update_latest_def)

lemma record_deviation_fields [simp]:
  "open_positions (record_deviation w r d st) = open_positions st"
  "exposure (record_deviation w r d st) = exposure st"
  "equity (record_deviation w r d st) = equity st"
  "trades (record_deviation w r d st) = trades st"
  "has_open (record_deviation w r d st) = has_open st"
  "latest_price (record_deviation w r d st) = latest_price st"
  "latest_tick (record_deviation w r d st) = latest_tick st"
  by (simp_all add: record_deviation_def)

lemma step_cases:
  assumes "step z_entry W tp st r = Inr st'"
  obtains (warmup) "length (latest_price (update_latest r st)) < MIN_POOLS_FOR_REF"
      and "st' = update_latest r st"
  | (active) d z st3 where
      "MIN_POOLS_FOR_REF \<le> length (latest_price (update_latest r st))"
      "d = row_usd_per_eth r - np_median (map snd (latest_price (update_latest r st)))"
      "zscore d (map snd (diffs_by_pool (record_deviation (W * 60) r d (update_latest r st))
         (row_pool r))) = Inr z"
      "manage_positions r (record_deviation (W * 60) r d (update_latest r st)) = Inr st3"
      "entry_signal z_entry tp r (np_median (map snd (latest_price (update_latest r st)))) z st3
         = Inr st'"
  using assms
  unfolding step_def Let_def
  by (auto split: if_splits sum.splits)

lemma list_all2_in_set2:
  assumes "list_all2 P xs ys" and "y \<in> set ys"
  shows "\<exists>x \<in> set xs. P x y"
  using assms
  by (induction rule: list_all2_induct) auto

lemma eod_position_cases:
  assumes "eod_position all_df pos st = Inr (pos', st')"
  shows "same_entry_fields pos pos' \<and> \<not> open_flag pos'
     \<and> exposure st' = exposure st - open_notional pos
     \<and> has_open st' = has_open st
     \<and> (trades st' = trades st
        \<or> (\<exists>t p pnl. trades st' = trades st @ [close_record pos t p pnl ''eod'']))"
proof (cases "open_flag pos")
  case False
  with assms show ?thesis
    by (simp add: eod_position_def same_entry_fields_def open_notional_def)
next
  case True
  define tk where "tk = (case last_by_pool all_df row_tick (pool pos) of
                    Some v \<Rightarrow> v | None \<Rightarrow> entry_tick pos)"
  define t where "t = (case last_by_pool all_df row_timestamp (pool pos) of
                    Some v \<Rightarrow> v | None \<Rightarrow> entry_ts pos)"
  define p where "p = (case last_by_pool all_df row_usd_per_eth (pool pos) of
                    Some v \<Rightarrow> v | None \<Rightarrow> entry_price pos)"
  obtain a b where ab: "amounts_at_price (L_user pos) (tick_lower pos) (tick_upper pos) tk = Inr (a, b)"
    using amounts_at_price_ex by blast
  have "pos' = pos\<lparr>open_flag := False\<rparr>"
    and "st' = st\<lparr>equity := equity st + ((a + b * p - notional pos) + fees_usd pos),
                 exposure := exposure st - notional pos,
                 trades := trades st @
                   [close_record pos t p ((a + b * p - notional pos) + fees_usd pos) ''eod'']\<rparr>"
    using assms True ab
    by (simp_all add: eod_position_def Let_def tk_def [symmetric] t_def [symmetric]
        p_def [symmetric])
  then show ?thesis
    using True by (auto simp: same_entry_fields_def open_notional_def)
qed

lemma eod_close_Inr:
  assumes "eod_close all_df st = Inr st'"
  obtains ps' s' where "for_positions (eod_position all_df) (open_positions st) st = Inr (ps', s')"
    and "st' = s'\<lparr>open_positions := ps'\<rparr>"
  using assms by (auto simp: eod_close_def split: sum.splits)

lemma zscore_total:
  "zscore d vals =
     Inr (if 10 \<le> length vals \<and> 1 / 10 ^ 12 < np_std_ddof1 vals
          then Some ((d - np_mean vals) / np_std_ddof1 vals) else None)"
  by (simp add: zscore_def py_div_def Let_def)

lemma run_rows_append:
  "run_rows z W tp st (rs @ rs') =
     (case run_rows z W tp st rs of Inl e \<Rightarrow> Inl e | Inr st' \<Rightarrow> run_rows z W tp st' rs')"
  by (induction rs arbitrary: st) (simp_all split: sum.splits)

lemma entry_signal_has_open:
  "has_open st (row_pool r) \<Longrightarrow> entry_signal z_entry tp r p_ref z st = Inr st"
  by (simp add: entry_signal_def Let_def split: option.splits)

lemma eod_close_total: "\<exists>st'. eod_close all_df st = Inr st'"
proof -
  have "\<exists>pos' st'. eod_position all_df pos s = Inr (pos', st')" for pos s
  proof -
    obtain a b where "amounts_at_price (L_user pos) (tick_lower pos) (tick_upper pos)
        (case last_by_pool all_df row_tick (pool pos) of
           Some v \<Rightarrow> v | None \<Rightarrow> entry_tick pos) = Inr (a, b)"
      using amounts_at_price_ex by blast
    then show ?thesis by (simp add: eod_position_def Let_def)
  qed
  then obtain ps' s' where
    "for_positions (eod_position all_df) (open_positions st) st = Inr (ps', s')"
    using for_positions_total [of "eod_position all_df"] by blast
  then show ?thesis by (simp add: eod_close_def)
qed

lemma entry_signal_None: "entry_signal z_entry tp r p_ref None st = Inr st"
  by (simp add: entry_signal_def)

lemma update_length_le: "length al \<le> length (AList.update k v al)"
  by (induct al) auto

lemma for_positions_id:
  assumes "\<And>j s. j < length ps \<Longrightarrow> body (ps ! j) s = Inr (ps ! j, s)"
  shows "for_positions body ps st = Inr (ps, st)"
  using assms
proof (induction ps arbitrary: st)
  case Nil
  then show ?case by simp
next
  case (Cons x xs)
  have h: "body x st = Inr (x, st)" using Cons.prems [of 0 st] by simp
  have "for_positions body xs st = Inr (xs, st)"
  proof (rule Cons.IH)
    fix j s assume "j < length xs"
    then show "body (xs ! j) s = Inr (xs ! j, s)" using Cons.prems [of "Suc j" s] by simp
  qed
  then show ?case using h by simp
qed

lemma for_positions_single:
  assumes "i < length ps"
    and "\<And>j s. j < length ps \<Longrightarrow> j \<noteq> i \<Longrightarrow> body (ps ! j) s = Inr (ps ! j, s)"
    and "body (ps ! i) st = Inr (p', st')"
  shows "for_positions body ps st = Inr (ps[i := p'], st')"
  using assms
proof (induction ps arbitrary: i st)
  case Nil
  then show ?case by simp
next
  case (Cons x xs)
  show ?case
  proof (cases i)
    case 0
    have "for_positions body xs st' = Inr (xs, st')"
    proof (rule for_positions_id)
      fix j s assume "j < length xs"
      then show "body (xs ! j) s = Inr (xs ! j, s)"
        using Cons.prems(2) [of "Suc j" s] 0 by simp
    qed
    then show ?thesis using Cons.prems(3) 0 by simp
  next
    case (Suc k)
    have h: "body x st = Inr (x, st)" using Cons.prems(2) [of 0 st] Suc by simp
    have "for_positions body xs st = Inr (xs[k := p'], st')"
    proof (rule Cons.IH)
      show "k < length xs" using Cons.prems(1) Suc by simp
    next
      fix j s assume "j < length xs" "j \<noteq> k"
      then show "body (xs ! j) s = Inr (xs ! j, s)"
        using Cons.prems(2) [of "Suc j" s] Suc by simp
    next
      show "body (xs ! k) st = Inr (p', st')" using Cons.prems(3) Suc by simp
    qed
    then show ?thesis using h Suc by simp
  qed
qed

lemma two_members_le_sum_list:
  fixes f :: "'a \<Rightarrow> nat"
  assumes "i < length ps" and "j < length ps" and "i \<noteq> j"
  shows "f (ps ! i) + f (ps ! j) \<le> sum_list (map f ps)"
  using assms
proof (induction ps arbitrary: i j)
  case Nil
  then show ?case by simp
next
  case (Cons x xs)
  have m: "f (xs ! k) \<le> sum_list (map f xs)" if "k < length xs" for k
    using that by (intro member_le_sum_list) simp_all
  show ?case
  proof (cases i)
    case 0
    then obtain j' where "j = Suc j'" using Cons.prems(3) by (cases j) auto
    then show ?thesis using 0 m [of j'] Cons.prems(2) by simp
  next
    case (Suc i')
    show ?thesis
    proof (cases j)
      case 0
      then show ?thesis using Suc m [of i'] Cons.prems(1) by simp
    next
      case (Suc j')
      then have "f (xs ! i') + f (xs ! j') \<le> sum_list (map f xs)"
        using Cons.IH [of i' j'] Cons.prems \<open>i = Suc i'\<close> by simp
      then show ?thesis using Suc \<open>i = Suc i'\<close> by simp
    qed
  qed
qed

lemma manage_position_stop_loss:
  assumes "open_flag pos" and "pool pos = row_pool r"
    and "(direction pos = ''down''
            \<and> (row_usd_per_eth r - entry_price pos) / entry_price pos > 2 / 100)
         \<or> (direction pos = ''up''
            \<and> (row_usd_per_eth r - entry_price pos) / entry_price pos < - (2 / 100))"
  shows "\<exists>amt0 amt1 pnl.
     amounts_at_price (L_user pos) (tick_lower pos) (tick_upper pos) (row_tick r)
       = Inr (amt0, amt1)
     \<and> pnl = ((amt0 + amt1 * row_usd_per_eth r) - notional pos) + fees_usd pos
     \<and> manage_position r pos st =
         Inr (pos\<lparr>open_flag := False\<rparr>,
              st\<lparr>equity := equity st + pnl,
                 exposure := exposure st - notional pos,
                 trades := trades st @
                   [close_record pos (row_timestamp r) (row_usd_per_eth r) pnl ''stop_loss''],
                 has_open := (has_open st)(pool pos := False)\<rparr>)"
proof -
  obtain a b where ab: "amounts_at_price (L_user pos) (tick_lower pos) (tick_upper pos)
      (row_tick r) = Inr (a, b)"
    using amounts_at_price_ex by blast
  have nz: "entry_price pos \<noteq> 0"
    using assms(3) by auto
  have "manage_position r pos st =
         Inr (pos\<lparr>open_flag := False\<rparr>,
              st\<lparr>equity := equity st + (((a + b * row_usd_per_eth r) - notional pos) + fees_usd pos),
                 exposure := exposure st - notional pos,
                 trades := trades st @
                   [close_record pos (row_timestamp r) (row_usd_per_eth r)
                      (((a + b * row_usd_per_eth r) - notional pos) + fees_usd pos) ''stop_loss''],
                 has_open := (has_open st)(pool pos := False)\<rparr>)"
    using assms nz ab
    by (auto simp: manage_position_def py_div_def SL_PCT_def close_position_def Let_def)
  with ab show ?thesis by blast
qed

lemma manage_position_skip:
  "open_on (row_pool r) pos = 0 \<Longrightarrow> manage_position r pos s = Inr (pos, s)"
  by (auto simp: open_on_def manage_position_def split: if_splits)

lemma entry_signal_total:
  assumes "parse_fee_from_pool (row_pool r) = Inr f" and "TICK_SPACING_MAP f = Some s"
    and "0 < 1 + tp" and "row_usd_per_eth r \<noteq> 0"
  shows "\<exists>st'. entry_signal z_entry tp r p_ref z st = Inr st'"
proof -
  obtain ld ud where ad: "align_ticks_for_range (row_tick r) f tp ''down'' = Inr (ld, ud)"
    using align_ticks_total [OF assms(2,3)] by blast
  obtain lu uu where au: "align_ticks_for_range (row_tick r) f tp ''up'' = Inr (lu, uu)"
    using align_ticks_total [OF assms(2,3)] by blast
  have "ld < ud" "lu < uu"
    using align_ticks_lower_less_upper [OF ad] align_ticks_lower_less_upper [OF au]
    by simp_all
  then have nz: "sqrt_ratio_from_tick ud - sqrt_ratio_from_tick ld \<noteq> 0"
    "sqrt_ratio_from_tick uu - sqrt_ratio_from_tick lu \<noteq> 0"
    using sqrt_ratio_strict_mono [of ld ud] sqrt_ratio_strict_mono [of lu uu] by simp_all
  show ?thesis
    using assms(1,4) ad au nz
    by (simp add: entry_signal_def Let_def py_div_def L_from_amounts_single_side_def
        split: option.splits)
qed

subsection \<open>The exposure invariant\<close>

lemma manage_position_exposure_step:
  assumes "manage_position r pos st = Inr (pos', st')"
    and "exposure st = open_notional pos + k"
  shows "exposure st' = open_notional pos' + k"
  using manage_position_cases [OF assms(1)] assms(2)
  by (auto simp: closed_by_def open_notional_def same_entry_fields_def)

lemma manage_position_exposure_le:
  assumes "manage_position r pos st = Inr (pos', st')" and "0 \<le> notional pos"
  shows "exposure st' \<le> exposure st"
  using manage_position_cases [OF assms(1)] assms(2)
  by (auto simp: closed_by_def)

lemma list_all2_same_notional:
  assumes "list_all2 same_entry_fields ps ps'" and "\<forall>pos \<in> set ps. notional pos = c"
  shows "\<forall>pos \<in> set ps'. notional pos = c"
proof
  fix pos' assume "pos' \<in> set ps'"
  then obtain pos where "pos \<in> set ps" "same_entry_fields pos pos'"
    using list_all2_in_set2 [OF assms(1)] by blast
  then show "notional pos' = c"
    using assms(2) by (simp add: same_entry_fields_def)
qed

lemma manage_positions_exposure:
  assumes "manage_positions r st = Inr st'" and "exposure_inv st"
  shows "exposure_inv st'"
proof -
  from assms(1) obtain ps' s' where
    run: "for_positions (manage_position r) (open_positions st) st = Inr (ps', s')"
    and st': "st' = s'\<lparr>open_positions := ps'\<rparr>"
    by (rule manage_positions_Inr)
  have "exposure s' = sum_list (map open_notional ps') + 0"
  proof (rule for_positions_counting [where f = exposure and g = open_notional, OF _ run])
    show "exposure st = sum_list (map open_notional (open_positions st)) + 0"
      using assms(2) by (simp add: exposure_inv_def)
  next
    fix pos s pos1 s1 and k :: real
    assume "manage_position r pos s = Inr (pos1, s1)" "exposure s = open_notional pos + k"
    then show "exposure s1 = open_notional pos1 + k"
      by (rule manage_position_exposure_step)
  qed
  moreover have "list_all2 same_entry_fields (open_positions st) ps'"
  proof (rule for_positions_list_all2 [where body = "manage_position r", OF _ run])
    fix pos s pos1 s1
    assume "manage_position r pos s = Inr (pos1, s1)"
    then show "same_entry_fields pos pos1"
      using manage_position_cases by blast
  qed
  then have "\<forall>pos \<in> set ps'. notional pos = POSITION_SIZE_USD"
    using assms(2) list_all2_same_notional [of "open_positions st" ps' POSITION_SIZE_USD]
    by (simp add: exposure_inv_def)
  moreover have "exposure s' \<le> CAPITAL_LIMIT_USD"
  proof (rule for_positions_state_inv
      [where Q = "\<lambda>s. exposure s \<le> CAPITAL_LIMIT_USD" and body = "manage_position r", OF _ run])
    show "exposure st \<le> CAPITAL_LIMIT_USD" using assms(2) by (simp add: exposure_inv_def)
  next
    fix pos s pos1 s1
    assume "pos \<in> set (open_positions st)" "exposure s \<le> CAPITAL_LIMIT_USD"
      "manage_position r pos s = Inr (pos1, s1)"
    moreover have "0 \<le> notional pos"
      using \<open>pos \<in> set (open_positions st)\<close> assms(2)
      by (simp add: exposure_inv_def POSITION_SIZE_USD_def)
    ultimately show "exposure s1 \<le> CAPITAL_LIMIT_USD"
      using manage_position_exposure_le [of r pos s pos1 s1] by simp
  qed
  ultimately show ?thesis by (simp add: exposure_inv_def st')
qed

lemma entry_signal_exposure:
  assumes "entry_signal z_entry tp r p_ref z st = Inr st'" and "exposure_inv st"
  shows "exposure_inv st'"
  using entry_signal_cases [OF assms(1)] assms(2)
  by (auto simp: exposure_inv_def open_notional_def)

lemma step_exposure:
  assumes "step z_entry W tp st r = Inr st'" and "exposure_inv st"
  shows "exposure_inv st'"
  using assms(1)
proof (cases rule: step_cases)
  case warmup
  then show ?thesis using assms(2) by (simp add: exposure_inv_def)
next
  case (active d z st3)
  have "exposure_inv (record_deviation (W * 60) r d (update_latest r st))"
    using assms(2) by (simp add: exposure_inv_def)
  then have "exposure_inv st3" using active(4) manage_positions_exposure by blast
  then show ?thesis using active(5) entry_signal_exposure by blast
qed

lemma run_rows_exposure:
  assumes "run_rows z_entry W tp st rs = Inr st'" and "exposure_inv st"
  shows "exposure_inv st'"
  using assms
  by (induction rs arbitrary: st) (auto split: sum.splits dest: step_exposure)

lemma sum_open_notional_filter:
  "sum_list (map open_notional ps) = sum_list (map notional (filter open_flag ps))"
  by (induction ps) (simp_all add: open_notional_def)

lemma sum_open_notional_closed:
  "\<forall>pos \<in> set ps. \<not> open_flag pos \<Longrightarrow> sum_list (map open_notional ps) = 0"
  by (induction ps) (simp_all add: open_notional_def)

lemma eod_close_all_closed:
  assumes "eod_close all_df st = Inr st'"
  shows "\<forall>pos \<in> set (open_positions st'). \<not> open_flag pos"
proof -
  from assms obtain ps' s' where
    run: "for_positions (eod_position all_df) (open_positions st) st = Inr (ps', s')"
    and st': "st' = s'\<lparr>open_positions := ps'\<rparr>"
    by (rule eod_close_Inr)
  have "list_all2 (\<lambda>pos pos'. \<not> open_flag pos') (open_positions st) ps'"
  proof (rule for_positions_list_all2 [where body = "eod_position all_df", OF _ run])
    fix pos s pos1 s1
    assume "eod_position all_df pos s = Inr (pos1, s1)"
    then show "\<not> open_flag pos1" using eod_position_cases by blast
  qed
  then have "\<forall>pos \<in> set ps'. \<not> open_flag pos"
    using list_all2_in_set2 by fastforce
  then show ?thesis by (simp add: st')
qed

lemma eod_close_exposure:
  assumes "eod_close all_df st = Inr st'" and "exposure_inv st"
  shows "exposure_inv st' \<and> exposure st' = 0"
proof -
  from assms(1) obtain ps' s' where
    run: "for_positions (eod_position all_df) (open_positions st) st = Inr (ps', s')"
    and st': "st' = s'\<lparr>open_positions := ps'\<rparr>"
    by (rule eod_close_Inr)
  have "exposure s' = sum_list (map open_notional ps') + 0"
  proof (rule for_positions_counting [where f = exposure and g = open_notional, OF _ run])
    show "exposure st = sum_list (map open_notional (open_positions st)) + 0"
      using assms(2) by (simp add: exposure_inv_def)
  next
    fix pos s pos1 s1 and k :: real
    assume "eod_position all_df pos s = Inr (pos1, s1)" "exposure s = open_notional pos + k"
    then show "exposure s1 = open_notional pos1 + k"
      using eod_position_cases [of all_df pos s pos1 s1] by (simp add: open_notional_def)
  qed
  moreover have closed: "\<forall>pos \<in> set ps'. \<not> open_flag pos"
    using eod_close_all_closed [OF assms(1)] by (simp add: st')
  ultimately have zero: "exposure s' = 0"
    by (simp add: sum_open_notional_closed)
  have "list_all2 same_entry_fields (open_positions st) ps'"
  proof (rule for_positions_list_all2 [where body = "eod_position all_df", OF _ run])
    fix pos s pos1 s1
    assume "eod_position all_df pos s = Inr (pos1, s1)"
    then show "same_entry_fields pos pos1" using eod_position_cases by blast
  qed
  then have "\<forall>pos \<in> set ps'. notional pos = POSITION_SIZE_USD"
    using assms(2) list_all2_same_notional [of "open_positions st" ps' POSITION_SIZE_USD]
    by (simp add: exposure_inv_def)
  then show ?thesis
    using zero closed
    by (simp add: exposure_inv_def st' sum_open_notional_closed CAPITAL_LIMIT_USD_def)
qed

lemma exposure_inv_init: "exposure_inv init_state"
  by (simp add: exposure_inv_def init_state_def CAPITAL_LIMIT_USD_def)

subsection \<open>The invariant of the open flags\<close>

lemma manage_position_pool_step:
  assumes "manage_position r pos st = Inr (pos', st')"
    and "(if has_open st p then 1 else 0) = open_on p pos + (k :: nat)"
  shows "(if has_open st' p then 1 else 0) = open_on p pos' + k"
proof -
  from manage_position_cases [OF assms(1)]
  have sef: "same_entry_fields pos pos'"
    and alt: "(st' = st \<and> open_flag pos' = open_flag pos)
      \<or> (open_flag pos \<and> pool pos = row_pool r \<and> \<not> open_flag pos' \<and> closed_by r pos st st')"
    by simp_all
  have pl: "pool pos' = pool pos" using sef by (simp add: same_entry_fields_def)
  from alt show ?thesis
  proof
    assume "st' = st \<and> open_flag pos' = open_flag pos"
    then show ?thesis using assms(2) pl by (simp add: open_on_def)
  next
    assume c: "open_flag pos \<and> pool pos = row_pool r \<and> \<not> open_flag pos' \<and> closed_by r pos st st'"
    then have ho: "has_open st' = (has_open st)(pool pos := False)"
      by (auto simp: closed_by_def)
    show ?thesis
    proof (cases "p = pool pos")
      case True
      then show ?thesis using assms(2) c ho by (simp add: open_on_def split: if_splits)
    next
      case False
      then show ?thesis using assms(2) c ho pl by (simp add: open_on_def)
    qed
  qed
qed

lemma manage_positions_pool:
  assumes "manage_positions r st = Inr st'" and "pool_inv st"
  shows "pool_inv st'"
proof -
  from assms(1) obtain ps' s' where
    run: "for_positions (manage_position r) (open_positions st) st = Inr (ps', s')"
    and st': "st' = s'\<lparr>open_positions := ps'\<rparr>"
    by (rule manage_positions_Inr)
  have "(if has_open s' p then 1 else 0) = sum_list (map (open_on p) ps') + (0 :: nat)" for p
  proof (rule for_positions_counting
      [where f = "\<lambda>s. if has_open s p then 1 else 0" and g = "open_on p", OF _ run])
    show "(if has_open st p then 1 else 0) = sum_list (map (open_on p) (open_positions st)) + 0"
      using assms(2) by (simp add: pool_inv_def)
  next
    fix pos s pos1 s1 and k :: nat
    assume "manage_position r pos s = Inr (pos1, s1)"
      "(if has_open s p then 1 else 0) = open_on p pos + k"
    then show "(if has_open s1 p then 1 else 0) = open_on p pos1 + k"
      by (rule manage_position_pool_step)
  qed
  then show ?thesis by (simp add: pool_inv_def st')
qed

lemma entry_signal_pool:
  assumes "entry_signal z_entry tp r p_ref z st = Inr st'" and "pool_inv st"
  shows "pool_inv st'"
  using entry_signal_cases [OF assms(1)]
proof
  assume "st' = st"
  then show ?thesis using assms(2) by simp
next
  assume "\<exists>pos zv. z = Some zv \<and> \<bar>zv\<bar> > z_entry \<and> \<not> has_open st (row_pool r)
        \<and> exposure st + POSITION_SIZE_USD \<le> CAPITAL_LIMIT_USD
        \<and> pool pos = row_pool r \<and> open_flag pos \<and> notional pos = POSITION_SIZE_USD
        \<and> entry_ts pos = row_timestamp r \<and> entry_tick pos = row_tick r
        \<and> entry_price pos = row_usd_per_eth r
        \<and> \<not> ever_in_range pos \<and> fees_usd pos = 0
        \<and> direction pos = (if row_usd_per_eth r > p_ref then ''down'' else ''up'')
        \<and> st' = st\<lparr>open_positions := open_positions st @ [pos],
                     has_open := (has_open st)(row_pool r := True),
                     exposure := exposure st + POSITION_SIZE_USD,
                     trades := trades st @
                       [open_record (row_pool r) (direction pos) (row_timestamp r)
                          (row_usd_per_eth r) (tick_lower pos) (tick_upper pos) zv z_entry]\<rparr>"
  then obtain pos where no: "\<not> has_open st (row_pool r)"
    and pos: "pool pos = row_pool r" "open_flag pos"
    and ps: "open_positions st' = open_positions st @ [pos]"
    and ho: "has_open st' = (has_open st)(row_pool r := True)"
    by auto
  have zero: "sum_list (map (open_on (row_pool r)) (open_positions st)) = 0"
    using assms(2) no by (auto simp: pool_inv_def split: if_splits)
  show ?thesis
    unfolding pool_inv_def
  proof
    fix p
    show "(if has_open st' p then 1 else 0) = sum_list (map (open_on p) (open_positions st'))"
    proof (cases "p = row_pool r")
      case True
      then show ?thesis using zero pos by (simp add: ps ho open_on_def)
    next
      case False
      then show ?thesis using assms(2) pos by (simp add: ps ho open_on_def pool_inv_def)
    qed
  qed
qed

lemma step_pool:
  assumes "step z_entry W tp st r = Inr st'" and "pool_inv st"
  shows "pool_inv st'"
  using assms(1)
proof (cases rule: step_cases)
  case warmup
  then show ?thesis using assms(2) by (simp add: pool_inv_def)
next
  case (active d z st3)
  have "pool_inv (record_deviation (W * 60) r d (update_latest r st))"
    using assms(2) by (simp add: pool_inv_def)
  then have "pool_inv st3" using active(4) manage_positions_pool by blast
  then show ?thesis using active(5) entry_signal_pool by blast
qed

lemma run_rows_pool:
  assumes "run_rows z_entry W tp st rs = Inr st'" and "pool_inv st"
  shows "pool_inv st'"
  using assms
  by (induction rs arbitrary: st) (auto split: sum.splits dest: step_pool)

lemma pool_inv_init: "pool_inv init_state"
  by (simp add: pool_inv_def init_state_def)

lemma sum_open_on_filter:
  "sum_list (map (open_on p) ps) = length (filter (\<lambda>pos. open_flag pos \<and> pool pos = p) ps)"
  by (induction ps) (simp_all add: open_on_def)

subsection \<open>Positions exist only once the reference is valid\<close>

lemma manage_positions_latest_price:
  assumes "manage_positions r st = Inr st'"
  shows "latest_price st' = latest_price st"
proof -
  from assms obtain ps' s' where
    run: "for_positions (manage_position r) (open_positions st) st = Inr (ps', s')"
    and st': "st' = s'\<lparr>open_positions := ps'\<rparr>"
    by (rule manage_positions_Inr)
  have "latest_price s' = latest_price st"
  proof (rule for_positions_state_inv
      [where Q = "\<lambda>s. latest_price s = latest_price st" and body = "manage_position r",
        OF _ run])
    fix pos s pos1 s1
    assume q: "latest_price s = latest_price st" and b: "manage_position r pos s = Inr (pos1, s1)"
    from manage_position_cases [OF b] have "s1 = s \<or> closed_by r pos s s1" by blast
    then show "latest_price s1 = latest_price st"
      using q by (auto simp: closed_by_def)
  qed simp
  then show ?thesis by (simp add: st')
qed

lemma entry_signal_latest_price:
  assumes "entry_signal z_entry tp r p_ref z st = Inr st'"
  shows "latest_price st' = latest_price st"
  using entry_signal_cases [OF assms] by auto

lemma step_warm:
  assumes "step z_entry W tp st r = Inr st'" and "warm_inv st"
  shows "warm_inv st'"
  using assms(1)
proof (cases rule: step_cases)
  case warmup
  have "length (latest_price st) \<le> length (latest_price (update_latest r st))"
    by (simp add: update_latest_def update_length_le)
  then show ?thesis using warmup assms(2) by (simp add: warm_inv_def)
next
  case (active d z st3)
  have "latest_price st' = latest_price (update_latest r st)"
    using entry_signal_latest_price [OF active(5)] manage_positions_latest_price [OF active(4)]
    by simp
  then show ?thesis using active(1) by (simp add: warm_inv_def)
qed

lemma run_rows_warm:
  assumes "run_rows z_entry W tp st rs = Inr st'" and "warm_inv st"
  shows "warm_inv st'"
  using assms
  by (induction rs arbitrary: st) (auto split: sum.splits dest: step_warm)

lemma warm_inv_init: "warm_inv init_state"
  by (simp add: warm_inv_def init_state_def)

lemma reachable_warm:
  assumes "run_rows z_entry W tp init_state rs = Inr st" and "open_positions st \<noteq> []"
  shows "MIN_POOLS_FOR_REF \<le> length (latest_price (update_latest r st))"
proof -
  have "warm_inv st" using assms(1) warm_inv_init by (rule run_rows_warm)
  then have "MIN_POOLS_FOR_REF \<le> length (latest_price st)"
    using assms(2) by (simp add: warm_inv_def)
  moreover have "length (latest_price st) \<le> length (latest_price (update_latest r st))"
    by (simp add: update_latest_def update_length_le)
  ultimately show ?thesis by simp
qed

subsection \<open>The frame of the entry fields\<close>

lemma same_entry_fields_refl: "same_entry_fields a a"
  by (simp add: same_entry_fields_def)

lemma same_entry_fields_trans:
  "same_entry_fields a b \<Longrightarrow> same_entry_fields b c \<Longrightarrow> same_entry_fields a c"
  by (simp add: same_entry_fields_def)

lemma manage_positions_frame:
  assumes "manage_positions r st = Inr st'"
  shows "list_all2 same_entry_fields (open_positions st) (open_positions st')"
proof -
  from assms obtain ps' s' where
    run: "for_positions (manage_position r) (open_positions st) st = Inr (ps', s')"
    and st': "st' = s'\<lparr>open_positions := ps'\<rparr>"
    by (rule manage_positions_Inr)
  have "list_all2 same_entry_fields (open_positions st) ps'"
  proof (rule for_positions_list_all2 [where body = "manage_position r", OF _ run])
    fix pos s pos1 s1
    assume "manage_position r pos s = Inr (pos1, s1)"
    then show "same_entry_fields pos pos1"
      using manage_position_cases by blast
  qed
  then show ?thesis by (simp add: st')
qed

lemma eod_close_frame:
  assumes "eod_close all_df st = Inr st'"
  shows "list_all2 same_entry_fields (open_positions st) (open_positions st')"
proof -
  from assms obtain ps' s' where
    run: "for_positions (eod_position all_df) (open_positions st) st = Inr (ps', s')"
    and st': "st' = s'\<lparr>open_positions := ps'\<rparr>"
    by (rule eod_close_Inr)
  have "list_all2 same_entry_fields (open_positions st) ps'"
  proof (rule for_positions_list_all2 [where body = "eod_position all_df", OF _ run])
    fix pos s pos1 s1
    assume "eod_position all_df pos s = Inr (pos1, s1)"
    then show "same_entry_fields pos pos1"
      using eod_position_cases by blast
  qed
  then show ?thesis by (simp add: st')
qed

lemma entry_signal_frame:
  assumes "entry_signal z_entry tp r p_ref z st = Inr st'"
  shows "\<exists>new. open_positions st' = open_positions st @ new
           \<and> (\<forall>pos \<in> set new. pool pos = row_pool r)"
  using entry_signal_cases [OF assms] by auto

lemma step_frame:
  assumes "step z_entry W tp st r = Inr st'"
  shows "\<exists>ps new. open_positions st' = ps @ new
           \<and> list_all2 same_entry_fields (open_positions st) ps
           \<and> (\<forall>pos \<in> set new. pool pos = row_pool r)"
  using assms
proof (cases rule: step_cases)
  case warmup
  have "list_all2 same_entry_fields (open_positions st) (open_positions st)"
    by (simp add: list_all2_refl same_entry_fields_refl)
  then show ?thesis using warmup by (intro exI [of _ "open_positions st"] exI [of _ "[]"]) simp
next
  case (active d z st3)
  have "list_all2 same_entry_fields (open_positions st) (open_positions st3)"
    using manage_positions_frame [OF active(4)] by simp
  moreover obtain new where "open_positions st' = open_positions st3 @ new"
    "\<forall>pos \<in> set new. pool pos = row_pool r"
    using entry_signal_frame [OF active(5)] by blast
  ultimately show ?thesis by blast
qed

lemma run_rows_frame:
  assumes "run_rows z_entry W tp st rs = Inr st'"
  shows "\<exists>ps new. open_positions st' = ps @ new
           \<and> list_all2 same_entry_fields (open_positions st) ps
           \<and> (\<forall>pos \<in> set new. pool pos \<in> row_pool ` set rs)"
  using assms
proof (induction rs arbitrary: st)
  case Nil
  have "list_all2 same_entry_fields (open_positions st) (open_positions st)"
    by (simp add: list_all2_refl same_entry_fields_refl)
  then show ?case using Nil by (intro exI [of _ "open_positions st"] exI [of _ "[]"]) simp
next
  case (Cons r rs)
  from Cons.prems obtain st1 where s1: "step z_entry W tp st r = Inr st1"
    and r1: "run_rows z_entry W tp st1 rs = Inr st'"
    by (auto split: sum.splits)
  from step_frame [OF s1] obtain ps1 new1 where
    p1: "open_positions st1 = ps1 @ new1"
    and f1: "list_all2 same_entry_fields (open_positions st) ps1"
    and n1: "\<forall>pos \<in> set new1. pool pos = row_pool r"
    by blast
  from Cons.IH [OF r1] obtain qs new2 where
    p2: "open_positions st' = qs @ new2"
    and f2: "list_all2 same_entry_fields (ps1 @ new1) qs"
    and n2: "\<forall>pos \<in> set new2. pool pos \<in> row_pool ` set rs"
    unfolding p1 by blast
  from f2 obtain qs1 qs2 where q: "qs = qs1 @ qs2"
    and g1: "list_all2 same_entry_fields ps1 qs1"
    and g2: "list_all2 same_entry_fields new1 qs2"
    by (auto simp: list_all2_append1)
  have "list_all2 same_entry_fields (open_positions st) qs1"
    using f1 g1 same_entry_fields_trans by (rule list_all2_trans [rotated])
  moreover have "\<forall>pos \<in> set (qs2 @ new2). pool pos \<in> row_pool ` set (r # rs)"
  proof
    fix pos assume "pos \<in> set (qs2 @ new2)"
    then consider "pos \<in> set qs2" | "pos \<in> set new2" by auto
    then show "pool pos \<in> row_pool ` set (r # rs)"
    proof cases
      case 1
      then obtain pos0 where "pos0 \<in> set new1" "same_entry_fields pos0 pos"
        using list_all2_in_set2 [OF g2] by blast
      then show ?thesis using n1 by (simp add: same_entry_fields_def)
    next
      case 2
      then show ?thesis using n2 by auto
    qed
  qed
  moreover have "open_positions st' = qs1 @ (qs2 @ new2)" by (simp add: p2 q)
  ultimately show ?case by blast
qed

lemma run_rows_pools_seen:
  assumes "run_rows z_entry W tp init_state rs = Inr st"
  shows "\<forall>pos \<in> set (open_positions st). pool pos \<in> row_pool ` set rs"
proof -
  from run_rows_frame [OF assms] obtain ps new where
    "open_positions st = ps @ new"
    "list_all2 same_entry_fields (open_positions init_state) ps"
    "\<forall>pos \<in> set new. pool pos \<in> row_pool ` set rs"
    by blast
  then show ?thesis by (simp add: init_state_def)
qed

subsection \<open>The shape of the trade records\<close>

lemma close_record_shape:
  "reason \<in> {''stop_loss'', ''passed_range'', ''eod''}
     \<Longrightarrow> is_close_record (close_record pos ts p pnl reason)"
  by (auto simp: is_close_record_def close_record_def)

lemma open_record_shape: "is_open_record (open_record pl dir ts p tl' tu' z ze)"
  by (simp add: is_open_record_def open_record_def)

lemma manage_positions_trades:
  assumes "manage_positions r st = Inr st'" and "trades_inv st"
  shows "trades_inv st'"
proof -
  from assms(1) obtain ps' s' where
    run: "for_positions (manage_position r) (open_positions st) st = Inr (ps', s')"
    and st': "st' = s'\<lparr>open_positions := ps'\<rparr>"
    by (rule manage_positions_Inr)
  have "trades_inv s'"
  proof (rule for_positions_state_inv
      [where Q = trades_inv and body = "manage_position r", OF _ run assms(2)])
    fix pos s pos1 s1
    assume q: "trades_inv s" and b: "manage_position r pos s = Inr (pos1, s1)"
    from manage_position_cases [OF b]
    have "s1 = s \<or> closed_by r pos s s1" by blast
    then show "trades_inv s1"
    proof
      assume "s1 = s" then show ?thesis using q by simp
    next
      assume c: "closed_by r pos s s1"
      from c [unfolded closed_by_def] obtain pnl reason p1 where
        rs: "reason \<in> {''stop_loss'', ''passed_range''}"
        and eq: "s1 = s\<lparr>equity := equity s + pnl,
                     exposure := exposure s - notional pos,
                     trades := trades s
                       @ [close_record p1 (row_timestamp r) (row_usd_per_eth r) pnl reason],
                     has_open := (has_open s)(pool pos := False)\<rparr>"
        by blast
      have "is_close_record (close_record p1 (row_timestamp r) (row_usd_per_eth r) pnl reason)"
        using rs by (intro close_record_shape) auto
      then show ?thesis
        using q by (simp add: eq trades_inv_def)
    qed
  qed
  then show ?thesis by (simp add: st' trades_inv_def)
qed

lemma entry_signal_trades:
  assumes "entry_signal z_entry tp r p_ref z st = Inr st'" and "trades_inv st"
  shows "trades_inv st'"
  using entry_signal_cases [OF assms(1)] assms(2)
  by (auto simp: trades_inv_def open_record_shape)

lemma step_trades:
  assumes "step z_entry W tp st r = Inr st'" and "trades_inv st"
  shows "trades_inv st'"
  using assms(1)
proof (cases rule: step_cases)
  case warmup
  then show ?thesis using assms(2) by (simp add: trades_inv_def)
next
  case (active d z st3)
  have "trades_inv (record_deviation (W * 60) r d (update_latest r st))"
    using assms(2) by (simp add: trades_inv_def)
  then have "trades_inv st3" using active(4) manage_positions_trades by blast
  then show ?thesis using active(5) entry_signal_trades by blast
qed

lemma run_rows_trades:
  assumes "run_rows z_entry W tp st rs = Inr st'" and "trades_inv st"
  shows "trades_inv st'"
  using assms
  by (induction rs arbitrary: st) (auto split: sum.splits dest: step_trades)

lemma eod_close_trades:
  assumes "eod_close all_df st = Inr st'" and "trades_inv st"
  shows "trades_inv st'"
proof -
  from assms(1) obtain ps' s' where
    run: "for_positions (eod_position all_df) (open_positions st) st = Inr (ps', s')"
    and st': "st' = s'\<lparr>open_positions := ps'\<rparr>"
    by (rule eod_close_Inr)
  have "trades_inv s'"
  proof (rule for_positions_state_inv
      [where Q = trades_inv and body = "eod_position all_df", OF _ run assms(2)])
    fix pos s pos1 s1
    assume q: "trades_inv s" and b: "eod_position all_df pos s = Inr (pos1, s1)"
    from eod_position_cases [OF b]
    have "trades s1 = trades s
        \<or> (\<exists>t p pnl. trades s1 = trades s @ [close_record pos t p pnl ''eod''])"
      by blast
    then show "trades_inv s1"
      using q close_record_shape [of "''eod''" pos]
      by (auto simp: trades_inv_def)
  qed
  then show ?thesis by (simp add: st' trades_inv_def)
qed

subsection \<open>The stop-loss in a whole event\<close>

lemma manage_positions_stop_loss:
  assumes reach: "run_rows z_entry W tp init_state rs = Inr st"
    and i: "i < length (open_positions st)" and p: "open_positions st ! i = pos"
    and op: "open_flag pos" and pl: "pool pos = row_pool r"
    and sl: "(direction pos = ''down''
            \<and> (row_usd_per_eth r - entry_price pos) / entry_price pos > 2 / 100)
         \<or> (direction pos = ''up''
            \<and> (row_usd_per_eth r - entry_price pos) / entry_price pos < - (2 / 100))"
    and st2: "open_positions st2 = open_positions st"
  shows "\<exists>pnl. manage_positions r st2 =
      Inr (st2\<lparr>equity := equity st2 + pnl,
               exposure := exposure st2 - notional pos,
               trades := trades st2 @
                 [close_record pos (row_timestamp r) (row_usd_per_eth r) pnl ''stop_loss''],
               has_open := (has_open st2)(pool pos := False),
               open_positions := (open_positions st)[i := pos\<lparr>open_flag := False\<rparr>]\<rparr>)"
proof -
  have pinv: "pool_inv st" using reach pool_inv_init by (rule run_rows_pool)
  have one: "open_on (row_pool r) (open_positions st ! i) = 1"
    using p op pl by (simp add: open_on_def)
  have "(if has_open st (row_pool r) then 1 else 0)
      = sum_list (map (open_on (row_pool r)) (open_positions st))"
    using pinv unfolding pool_inv_def by (rule spec)
  then have sum1: "sum_list (map (open_on (row_pool r)) (open_positions st)) \<le> 1"
    by (cases "has_open st (row_pool r)") (simp_all only: if_True if_False le_refl zero_le_one)
  have others: "open_on (row_pool r) (open_positions st ! j) = 0"
    if "j < length (open_positions st)" "j \<noteq> i" for j
    using two_members_le_sum_list [OF i that(1), of "open_on (row_pool r)"] that(2) one sum1
    by simp
  obtain pnl where b: "manage_position r pos st2 =
         Inr (pos\<lparr>open_flag := False\<rparr>,
              st2\<lparr>equity := equity st2 + pnl,
                 exposure := exposure st2 - notional pos,
                 trades := trades st2 @
                   [close_record pos (row_timestamp r) (row_usd_per_eth r) pnl ''stop_loss''],
                 has_open := (has_open st2)(pool pos := False)\<rparr>)"
    using manage_position_stop_loss [OF op pl sl, of st2] by blast
  have "for_positions (manage_position r) (open_positions st2) st2 =
      Inr ((open_positions st2)[i := pos\<lparr>open_flag := False\<rparr>],
           st2\<lparr>equity := equity st2 + pnl,
                 exposure := exposure st2 - notional pos,
                 trades := trades st2 @
                   [close_record pos (row_timestamp r) (row_usd_per_eth r) pnl ''stop_loss''],
                 has_open := (has_open st2)(pool pos := False)\<rparr>)"
  proof (rule for_positions_single)
    show "i < length (open_positions st2)" using i by (simp add: st2)
  next
    fix j s assume "j < length (open_positions st2)" "j \<noteq> i"
    then show "manage_position r (open_positions st2 ! j) s = Inr (open_positions st2 ! j, s)"
      using others by (simp add: st2 manage_position_skip)
  next
    show "manage_position r (open_positions st2 ! i) st2 =
         Inr (pos\<lparr>open_flag := False\<rparr>,
              st2\<lparr>equity := equity st2 + pnl,
                 exposure := exposure st2 - notional pos,
                 trades := trades st2 @
                   [close_record pos (row_timestamp r) (row_usd_per_eth r) pnl ''stop_loss''],
                 has_open := (has_open st2)(pool pos := False)\<rparr>)"
      using b p by (simp add: st2)
  qed
  then show ?thesis
    by (intro exI [of _ pnl]) (simp add: manage_positions_def st2)
qed

lemma step_stop_loss:
  assumes reach: "run_rows z_entry W tp init_state rs = Inr st"
    and i: "i < length (open_positions st)" and p: "open_positions st ! i = pos"
    and op: "open_flag pos" and pl: "pool pos = row_pool r"
    and sl: "(direction pos = ''down''
            \<and> (row_usd_per_eth r - entry_price pos) / entry_price pos > 2 / 100)
         \<or> (direction pos = ''up''
            \<and> (row_usd_per_eth r - entry_price pos) / entry_price pos < - (2 / 100))"
    and step: "step z_entry W tp st r = Inr st'"
  shows "i < length (open_positions st')
     \<and> open_positions st' ! i = pos\<lparr>open_flag := False\<rparr>
     \<and> (\<exists>pnl rest.
          trades st' = trades st
             @ close_record pos (row_timestamp r) (row_usd_per_eth r) pnl ''stop_loss'' # rest
          \<and> (rest = [] \<or> (\<exists>t. rest = [t] \<and> is_open_record t)))"
proof -
  have "open_positions st \<noteq> []" using i by auto
  then have warm: "MIN_POOLS_FOR_REF \<le> length (latest_price (update_latest r st))"
    using reach by (intro reachable_warm)
  from step obtain d z st3 where
    m: "manage_positions r (record_deviation (W * 60) r d (update_latest r st)) = Inr st3"
    and e: "entry_signal z_entry tp r
        (np_median (map snd (latest_price (update_latest r st)))) z st3 = Inr st'"
    using warm by (cases rule: step_cases) simp_all
  obtain pnl where st3: "open_positions st3 = (open_positions st)[i := pos\<lparr>open_flag := False\<rparr>]"
    "trades st3 = trades st
        @ [close_record pos (row_timestamp r) (row_usd_per_eth r) pnl ''stop_loss'']"
    using manage_positions_stop_loss [OF reach i p op pl sl,
        of "record_deviation (W * 60) r d (update_latest r st)"] m
    by auto
  from entry_signal_cases [OF e]
  have "st' = st3 \<or> (\<exists>new t. open_positions st' = open_positions st3 @ [new]
      \<and> trades st' = trades st3 @ [t] \<and> is_open_record t)"
    by (auto simp: open_record_shape)
  then show ?thesis
  proof
    assume "st' = st3"
    then show ?thesis using st3 i by auto
  next
    assume "\<exists>new t. open_positions st' = open_positions st3 @ [new]
      \<and> trades st' = trades st3 @ [t] \<and> is_open_record t"
    then obtain new t where "open_positions st' = open_positions st3 @ [new]"
      "trades st' = trades st3 @ [t]" "is_open_record t"
      by blast
    then show ?thesis using st3 i by (auto simp: nth_append)
  qed
qed

subsection \<open>The end-of-data pass against its specification\<close>

lemma last_by_pool_Some:
  assumes "p \<in> row_pool ` set all_df"
  shows "last_by_pool all_df col p = Some (col (last_row all_df p))"
proof -
  have "filter (\<lambda>r. row_pool r = p) all_df \<noteq> []"
    using assms by (auto simp: filter_empty_conv)
  then show ?thesis
    by (simp add: last_by_pool_def last_row_def split: list.splits)
qed

lemma last_row_is_last:
  assumes "p \<in> row_pool ` set all_df"
  shows "\<exists>pre post. all_df = pre @ last_row all_df p # post
           \<and> row_pool (last_row all_df p) = p \<and> (\<forall>r \<in> set post. row_pool r \<noteq> p)"
  using assms
proof (induction all_df rule: rev_induct)
  case Nil
  then show ?case by simp
next
  case (snoc r rs)
  show ?case
  proof (cases "row_pool r = p")
    case True
    then have "last_row (rs @ [r]) p = r" by (simp add: last_row_def)
    then show ?thesis using True by (intro exI [of _ rs] exI [of _ "[]"]) simp
  next
    case False
    then have in_rs: "p \<in> row_pool ` set rs" using snoc.prems by auto
    have eq: "last_row (rs @ [r]) p = last_row rs p" using False by (simp add: last_row_def)
    from snoc.IH [OF in_rs] obtain pre post where
      "rs = pre @ last_row rs p # post" "row_pool (last_row rs p) = p"
      "\<forall>r \<in> set post. row_pool r \<noteq> p"
      by blast
    then show ?thesis
      unfolding eq using False
      by (intro exI [of _ pre] exI [of _ "post @ [r]"]) auto
  qed
qed

lemma eod_position_spec:
  assumes "pool pos \<in> row_pool ` set all_df"
  shows "eod_position all_df pos st =
     Inr (if open_flag pos then
            (pos\<lparr>open_flag := False\<rparr>,
             st\<lparr>equity := equity st + eod_pnl all_df pos,
                exposure := exposure st - notional pos,
                trades := trades st @ [eod_trade all_df pos]\<rparr>)
          else (pos, st))"
proof -
  obtain a b where ab: "amounts_at_price (L_user pos) (tick_lower pos) (tick_upper pos)
      (row_tick (last_row all_df (pool pos))) = Inr (a, b)"
    using amounts_at_price_ex by blast
  show ?thesis
    using ab
    by (simp add: eod_position_def last_by_pool_Some [OF assms] eod_pnl_def eod_trade_def
        Let_def)
qed

lemma eod_loop_spec:
  assumes "\<forall>pos \<in> set ps. pool pos \<in> row_pool ` set all_df"
  shows "for_positions (eod_position all_df) ps st =
     Inr (map (\<lambda>pos. pos\<lparr>open_flag := False\<rparr>) ps,
          st\<lparr>equity := equity st + sum_list (map (eod_pnl all_df) (filter open_flag ps)),
             exposure := exposure st - sum_list (map notional (filter open_flag ps)),
             trades := trades st @ map (eod_trade all_df) (filter open_flag ps)\<rparr>)"
  using assms
proof (induction ps arbitrary: st)
  case Nil
  then show ?case by simp
next
  case (Cons pos ps)
  have closed: "\<not> open_flag pos \<Longrightarrow> pos\<lparr>open_flag := False\<rparr> = pos"
    by simp
  have p: "pool pos \<in> row_pool ` set all_df" and ps: "\<forall>pos \<in> set ps. pool pos \<in> row_pool ` set all_df"
    using Cons.prems by simp_all
  show ?case
    by (simp add: eod_position_spec [OF p] Cons.IH [OF ps] closed algebra_simps)
qed

lemma eod_close_spec:
  assumes "\<forall>pos \<in> set (open_positions st). pool pos \<in> row_pool ` set all_df"
  shows "eod_close all_df st =
     Inr (st\<lparr>equity := equity st
                 + sum_list (map (eod_pnl all_df) (filter open_flag (open_positions st))),
             exposure := exposure st
                 - sum_list (map notional (filter open_flag (open_positions st))),
             trades := trades st @ map (eod_trade all_df) (filter open_flag (open_positions st)),
             open_positions := map (\<lambda>pos. pos\<lparr>open_flag := False\<rparr>) (open_positions st)\<rparr>)"
  by (simp add: eod_close_def eod_loop_spec [OF assms])

lemma eod_pnl_formula:
  "\<exists>amt0 amt1.
     amounts_at_price (L_user pos) (tick_lower pos) (tick_upper pos)
       (row_tick (last_row all_df (pool pos))) = Inr (amt0, amt1)
     \<and> eod_pnl all_df pos
         = ((amt0 + amt1 * row_usd_per_eth (last_row all_df (pool pos))) - notional pos)
           + fees_usd pos"
proof -
  obtain a b where ab: "amounts_at_price (L_user pos) (tick_lower pos) (tick_upper pos)
      (row_tick (last_row all_df (pool pos))) = Inr (a, b)"
    using amounts_at_price_ex by blast
  then show ?thesis by (simp add: eod_pnl_def Let_def)
qed

subsection \<open>The grid as a scan\<close>

lemma scan_append:
  "scan df (cs @ cs') b =
     (case scan df cs b of Inl e \<Rightarrow> Inl e | Inr b' \<Rightarrow> scan df cs' b')"
  by (induction df cs b rule: scan.induct) (simp_all split: sum.splits prod.splits)

lemma loop_rpct_scan: "loop_rpct df W z rs b = scan df (map (\<lambda>rpct. (W, z, rpct)) rs) b"
  by (induction rs arbitrary: b) (simp_all split: sum.splits prod.splits)

lemma loop_z_scan:
  "loop_z df W zs rs b = scan df (concat (map (\<lambda>z. map (\<lambda>rpct. (W, z, rpct)) rs) zs)) b"
  by (induction zs arbitrary: b) (simp_all add: scan_append loop_rpct_scan split: sum.splits)

lemma loop_W_scan: "loop_W df Ws zs rs b = scan df (grid Ws zs rs) b"
  by (induction Ws arbitrary: b)
     (simp_all add: grid_def scan_append loop_z_scan split: sum.splits)

lemma scan_total:
  assumes "\<forall>c \<in> set cs. run_ok df c"
  shows "\<exists>b'. scan df cs b = Inr b' \<and> (b' = None \<longrightarrow> b = None \<and> cs = [])"
  using assms
proof (induction df cs b rule: scan.induct)
  case (1 df b)
  then show ?case by simp
next
  case (2 df W z rpct cs b)
  from "2.prems" obtain roi pl where r: "backtest_lp df z W rpct = Inr (roi, pl)"
    by (auto simp: run_ok_def split: sum.splits)
  define b1 where "b1 = (case b of
               None \<Rightarrow> Some (roi, (z, W, rpct), pl)
             | Some (best_roi, _) \<Rightarrow>
                 if roi > best_roi then Some (roi, (z, W, rpct), pl) else b)"
  have ne: "b1 \<noteq> None" by (auto simp: b1_def split: option.splits)
  have "\<exists>b'. scan df cs b1 = Inr b' \<and> (b' = None \<longrightarrow> b1 = None \<and> cs = [])"
    using "2.IH" [OF r refl] "2.prems" unfolding b1_def by simp
  then show ?case using r ne by (auto simp: b1_def)
qed

lemma scan_best:
  assumes "scan df cs b = Inr (Some (roi, (z, W, rpct), pl))"
  shows "best_roi_le b roi \<and> (\<forall>c \<in> set cs. roi_of df c \<le> roi)
       \<and> (b = Some (roi, (z, W, rpct), pl)
          \<or> (best_roi_less b roi
             \<and> (\<exists>pre post. cs = pre @ (W, z, rpct) # post
                  \<and> backtest_lp df z W rpct = Inr (roi, pl)
                  \<and> (\<forall>c \<in> set pre. roi_of df c < roi))))"
  using assms
proof (induction df cs b rule: scan.induct)
  case (1 df b)
  then show ?case by (simp add: best_roi_le_def)
next
  case (2 df W0 z0 r0 cs b)
  from "2.prems" obtain roi0 pl0 where r: "backtest_lp df z0 W0 r0 = Inr (roi0, pl0)"
    by (auto split: sum.splits)
  have ro: "roi_of df (W0, z0, r0) = roi0" by (simp add: roi_of_def r)
  define b1 where "b1 = (case b of
               None \<Rightarrow> Some (roi0, (z0, W0, r0), pl0)
             | Some (best_roi, _) \<Rightarrow>
                 if roi0 > best_roi then Some (roi0, (z0, W0, r0), pl0) else b)"
  have s: "scan df cs b1 = Inr (Some (roi, (z, W, rpct), pl))"
    using "2.prems" r by (simp add: b1_def)
  have IH: "best_roi_le b1 roi \<and> (\<forall>c \<in> set cs. roi_of df c \<le> roi)
       \<and> (b1 = Some (roi, (z, W, rpct), pl)
          \<or> (best_roi_less b1 roi
             \<and> (\<exists>pre post. cs = pre @ (W, z, rpct) # post
                  \<and> backtest_lp df z W rpct = Inr (roi, pl)
                  \<and> (\<forall>c \<in> set pre. roi_of df c < roi))))"
    using "2.IH" [OF r refl] s unfolding b1_def by simp
  have "(b1 = b \<and> \<not> best_roi_less b roi0)
      \<or> (b1 = Some (roi0, (z0, W0, r0), pl0) \<and> best_roi_less b roi0)"
  proof (cases b)
    case None
    then show ?thesis by (simp add: b1_def best_roi_less_def)
  next
    case (Some t)
    obtain broi x where t: "t = (broi, x)" by (cases t)
    show ?thesis
      by (cases "broi < roi0") (auto simp: Some t b1_def best_roi_le_def best_roi_less_def)
  qed
  then consider (keep) "b1 = b" "\<not> best_roi_less b roi0"
    | (replace) "b1 = Some (roi0, (z0, W0, r0), pl0)" "best_roi_less b roi0"
    by blast
  then show ?case
  proof cases
    case keep
    have le0: "roi0 \<le> roi"
      using IH keep by (auto simp: best_roi_le_def best_roi_less_def split: option.splits)
    have "b = Some (roi, (z, W, rpct), pl)
          \<or> (best_roi_less b roi
             \<and> (\<exists>pre post. (W0, z0, r0) # cs = pre @ (W, z, rpct) # post
                  \<and> backtest_lp df z W rpct = Inr (roi, pl)
                  \<and> (\<forall>c \<in> set pre. roi_of df c < roi)))"
    proof (cases "b = Some (roi, (z, W, rpct), pl)")
      case True
      then show ?thesis by simp
    next
      case False
      with IH keep obtain pre post where lt: "best_roi_less b roi"
        and sp: "cs = pre @ (W, z, rpct) # post"
        and bt: "backtest_lp df z W rpct = Inr (roi, pl)"
        and pr: "\<forall>c \<in> set pre. roi_of df c < roi"
        by auto
      have "roi0 < roi"
        using keep lt by (auto simp: best_roi_less_def split: option.splits)
      then have "\<forall>c \<in> set ((W0, z0, r0) # pre). roi_of df c < roi"
        using pr ro by simp
      moreover have "(W0, z0, r0) # cs = ((W0, z0, r0) # pre) @ (W, z, rpct) # post"
        by (simp add: sp)
      ultimately show ?thesis using lt bt by blast
    qed
    then show ?thesis using IH keep le0 ro by simp
  next
    case replace
    have le0: "roi0 \<le> roi"
      using IH replace by (simp add: best_roi_le_def)
    have lt: "best_roi_less b roi"
      using replace(2) le0 by (auto simp: best_roi_less_def split: option.splits)
    have "\<exists>pre post. (W0, z0, r0) # cs = pre @ (W, z, rpct) # post
                  \<and> backtest_lp df z W rpct = Inr (roi, pl)
                  \<and> (\<forall>c \<in> set pre. roi_of df c < roi)"
    proof (cases "b1 = Some (roi, (z, W, rpct), pl)")
      case True
      then have "roi0 = roi" "z0 = z" "W0 = W" "r0 = rpct" "pl0 = pl"
        using replace(1) by simp_all
      then show ?thesis using r by (intro exI [of _ "[]"] exI [of _ cs]) simp
    next
      case False
      with IH obtain pre post where l1: "best_roi_less b1 roi"
        and sp: "cs = pre @ (W, z, rpct) # post"
        and bt: "backtest_lp df z W rpct = Inr (roi, pl)"
        and pr: "\<forall>c \<in> set pre. roi_of df c < roi"
        by auto
      have "roi0 < roi" using l1 replace(1) by (simp add: best_roi_less_def)
      then have "\<forall>c \<in> set ((W0, z0, r0) # pre). roi_of df c < roi"
        using pr ro by simp
      moreover have "(W0, z0, r0) # cs = ((W0, z0, r0) # pre) @ (W, z, rpct) # post"
        by (simp add: sp)
      ultimately show ?thesis using bt by blast
    qed
    moreover have "best_roi_le b roi"
      using lt by (auto simp: best_roi_le_def best_roi_less_def split: option.splits)
    ultimately show ?thesis using IH lt le0 ro by simp
  qed
qed

lemma scan_ok:
  assumes "scan df cs b = Inr b'"
  shows "\<forall>c \<in> set cs. run_ok df c"
  using assms
proof (induction df cs b rule: scan.induct)
  case (1 df b)
  then show ?case by simp
next
  case (2 df W z rpct cs b)
  from "2.prems" obtain roi pl where r: "backtest_lp df z W rpct = Inr (roi, pl)"
    by (auto split: sum.splits)
  have "\<forall>c \<in> set cs. run_ok df c"
    using "2.IH" [OF r refl] "2.prems" r by simp
  then show ?case using r by (simp add: run_ok_def)
qed

lemma grid_order:
  "grid WINDOW_MINUTES Z_CANDIDATES RANGE_PCT_CAND =
     [(5, 125 / 100, 5 / 10000), (5, 125 / 100, 10 / 10000),
      (5, 15 / 10, 5 / 10000), (5, 15 / 10, 10 / 10000),
      (5, 175 / 100, 5 / 10000), (5, 175 / 100, 10 / 10000),
      (5, 2, 5 / 10000), (5, 2, 10 / 10000),
      (5, 25 / 10, 5 / 10000), (5, 25 / 10, 10 / 10000),
      (10, 125 / 100, 5 / 10000), (10, 125 / 100, 10 / 10000),
      (10, 15 / 10, 5 / 10000), (10, 15 / 10, 10 / 10000),
      (10, 175 / 100, 5 / 10000), (10, 175 / 100, 10 / 10000),
      (10, 2, 5 / 10000), (10, 2, 10 / 10000),
      (10, 25 / 10, 5 / 10000), (10, 25 / 10, 10 / 10000),
      (15, 125 / 100, 5 / 10000), (15, 125 / 100, 10 / 10000),
      (15, 15 / 10, 5 / 10000), (15, 15 / 10, 10 / 10000),
      (15, 175 / 100, 5 / 10000), (15, 175 / 100, 10 / 10000),
      (15, 2, 5 / 10000), (15, 2, 10 / 10000),
      (15, 25 / 10, 5 / 10000), (15, 25 / 10, 10 / 10000)]"
  by (simp add: grid_def WINDOW_MINUTES_def Z_CANDIDATES_def RANGE_PCT_CAND_def)

subsection \<open>The scripted run, evaluated\<close>

lemma warm_run:
  "run_rows (3 / 2) 10 (1 / 1000) init_state warmup_rows = Inr warm_state"
  by (simp add: warmup_rows_def warm_state_def step_def swap_row_def update_latest_def
      init_state_def MIN_POOLS_FOR_REF_def usd_per_eth_from_tick_0 Let_def np_median_def
      record_deviation_def push_window_def zscore_total manage_positions_def entry_signal_def)

lemma signal_sd:
  "np_std_ddof1 [0, 0, 0, 0, 0, 0, 0, 0, 0, 1 / 10000] = sqrt (1 / 10 ^ 9)"
  by (simp add: np_std_ddof1_def np_mean_def power2_eq_square)

lemma signal_sd_large: "1 / 10 ^ 12 < sqrt (1 / 10 ^ 9 :: real)"
  by (rule real_less_rsqrt) (simp add: power2_eq_square)

lemma signal_z_large: "3 / 2 < \<bar>signal_z\<bar>"
proof -
  have "sqrt (1 / 10 ^ 9 :: real) < 6 / 100000"
    by (rule real_less_lsqrt) (simp_all add: power2_eq_square)
  moreover have "0 < sqrt (1 / 10 ^ 9 :: real)" by simp
  ultimately have "3 / 2 < (9 / 100000) / sqrt (1 / 10 ^ 9 :: real)"
    by (simp add: field_simps)
  then show ?thesis by (simp add: signal_z_def)
qed

lemma signal_zscore:
  "zscore (1 / 10000) [0, 0, 0, 0, 0, 0, 0, 0, 0, 1 / 10000] = Inr (Some signal_z)"
  using signal_sd_large
  by (simp add: zscore_total signal_sd signal_z_def np_mean_def)

lemma signal_L_from_amounts:
  "L_from_amounts_single_side (- 30) (- 20) None (Some (10000000 / 10001)) = Inr signal_L"
  using sqrt_ratio_strict_mono [of "- 30" "- 20"]
  by (simp add: L_from_amounts_single_side_def py_div_def signal_L_def)

lemma signal_fee: "parse_fee_from_pool ''USDCETH500'' = Inr 500"
  by (simp add: parse_fee_from_pool_def py_int_def strip_def is_space_def digit_val_def)

lemma signal_range: "align_ticks_for_range (- 1) 500 (1 / 1000) ''down'' = Inr (- 30, - 20)"
  by (simp add: align_ticks_for_range_def TICK_SPACING_MAP_def width_ticks_10)

lemma signal_step:
  "step (3 / 2) 10 (1 / 1000) warm_state signal_row = Inr signal_state"
  using signal_z_large
  by (simp add: signal_row_def warm_state_def step_def swap_row_def update_latest_def
      MIN_POOLS_FOR_REF_def usd_per_eth_from_tick_m1 Let_def np_median_def
      record_deviation_def push_window_def signal_zscore manage_positions_def entry_signal_def
      POSITION_SIZE_USD_def CAPITAL_LIMIT_USD_def signal_fee signal_range py_div_def
      signal_L_from_amounts signal_state_def signal_pos_def)

lemma signal_run:
  "run_rows (3 / 2) 10 (1 / 1000) init_state (warmup_rows @ [signal_row]) = Inr signal_state"
  by (simp add: run_rows_append warm_run signal_step)

lemma signal_run_take:
  "run_rows (3 / 2) 10 (1 / 1000) init_state (take 12 (warmup_rows @ [signal_row]))
     = Inr signal_state"
proof -
  have "take 12 (warmup_rows @ [signal_row]) = warmup_rows @ [signal_row]"
    by (simp add: warmup_rows_def)
  then show ?thesis by (simp only: signal_run)
qed

lemma signal_L_pos: "0 < signal_L"
  using sqrt_ratio_strict_mono [of "- 30" "- 20"]
  by (simp add: signal_L_def)

lemma inrange_manage:
  "manage_position inrange_row signal_pos st = Inr (inrange_pos, st)"
proof -
  have "\<not> (2 / 100 < ((10001 / 10000) ^ 25 - 10001 / 10000) / (10001 / 10000 :: real))"
    by (simp add: power_divide)
  moreover have "(0::real) < 1000000 + signal_L" "1000000 + signal_L \<noteq> 0"
    using signal_L_pos by simp_all
  ultimately show ?thesis
    by (simp add: manage_position_def inrange_row_def swap_row_def signal_pos_def
        usd_per_eth_from_tick_m25 py_div_def SL_PCT_def accrue_fees_def FEE_TIER_MAP_def
        Let_def inrange_pos_def del: power_numeral)
qed

lemma inrange_step:
  "step (3 / 2) 10 (1 / 1000) signal_state inrange_row = Inr inrange_state"
proof -
  have m: "np_median [1, 1, (10001 / 10000) ^ 25] = (1 :: real)"
    by (simp add: np_median_def power_divide)
  have r: "row_pool inrange_row = ''USDCETH500''" "row_timestamp inrange_row = 13"
    "row_tick inrange_row = - 25" "row_usd_per_eth inrange_row = (10001 / 10000) ^ 25"
    by (simp_all add: inrange_row_def swap_row_def usd_per_eth_from_tick_m25)
  show ?thesis
    by (simp add: step_def update_latest_def record_deviation_def push_window_def
        MIN_POOLS_FOR_REF_def Let_def zscore_total manage_positions_def
        signal_state_def inrange_manage entry_signal_has_open inrange_state_def r m
        del: power_numeral)
qed

lemma signal_last_row: "last_row (warmup_rows @ [signal_row]) ''USDCETH500'' = signal_row"
  by (simp add: last_row_def signal_row_def swap_row_def)

lemma signal_last_row_fields:
  "row_timestamp (last_row (warmup_rows @ [signal_row]) ''USDCETH500'') = 12"
  "row_tick (last_row (warmup_rows @ [signal_row]) ''USDCETH500'') = - 1"
  "row_usd_per_eth (last_row (warmup_rows @ [signal_row]) ''USDCETH500'') = 10001 / 10000"
  by (simp_all only: signal_last_row)
     (simp_all add: signal_row_def swap_row_def usd_per_eth_from_tick_m1)

lemma signal_L_times:
  "signal_L * (sqrt_ratio_from_tick (- 20) - sqrt_ratio_from_tick (- 30)) = 10000000 / 10001"
proof -
  define D where "D = sqrt_ratio_from_tick (- 20) - sqrt_ratio_from_tick (- 30)"
  have "D \<noteq> 0"
    using sqrt_ratio_strict_mono [of "- 30" "- 20"] by (simp add: D_def)
  have e: "signal_L = (10000000 / 10001) / D"
    by (simp add: signal_L_def D_def)
  have "signal_L * D = ((10000000 / 10001) / D) * D"
    by (simp only: e)
  also have "\<dots> = 10000000 / 10001"
    using \<open>D \<noteq> 0\<close> by simp
  finally show ?thesis by (simp only: D_def)
qed

lemma signal_eod_pnl: "eod_pnl (warmup_rows @ [signal_row]) signal_pos = 0"
  using signal_L_times
  by (simp add: eod_pnl_def signal_pos_def signal_last_row_fields
      amounts_at_price_total Let_def)

lemma crash_adverse:
  "2 / 100 < ((10001 / 10000) ^ 300 - 10001 / 10000) / (10001 / 10000 :: real)"
proof -
  have "(1 :: real) + of_nat 299 * (1 / 10000) \<le> (1 + 1 / 10000) ^ 299"
    by (rule Bernoulli_inequality) simp
  then have "(10299 / 10000 :: real) \<le> (10001 / 10000) ^ 299"
    by (simp del: power_numeral)
  moreover have pw: "(a ^ 300 - a) / a = a ^ 299 - 1" if "a \<noteq> 0" for a :: real
  proof -
    have "a ^ 300 = a ^ Suc 299" by simp
    also have "\<dots> = a * a ^ 299" by (rule power_Suc)
    finally show ?thesis using that by (simp add: diff_divide_distrib)
  qed
  have "((10001 / 10000) ^ 300 - 10001 / 10000) / (10001 / 10000 :: real)
      = (10001 / 10000) ^ 299 - 1"
    by (rule pw) simp
  ultimately show ?thesis by (simp del: power_numeral)
qed

lemma flat_fields:
  "row_pool flat_row = ''USDCETH500''" "row_timestamp flat_row = 12"
  "row_tick flat_row = 0" "row_usd_per_eth flat_row = 1"
  by (simp_all add: flat_row_def swap_row_def usd_per_eth_from_tick_0)

lemma np_std_ten_zeros: "np_std_ddof1 [0, 0, 0, 0, 0, 0, 0, 0, 0, 0] = 0"
  by (simp add: np_std_ddof1_def np_mean_def)

lemma single_row_backtest:
  "backtest_lp [flat_row] z W tp =
     Inr (0, (\<lparr> m_z_entry = z, m_window_min = W, m_range_pct = tp, m_equity_usd = 0,
                 m_roi_on_20k = 0, m_num_trades = 0 \<rparr>, []))"
  by (simp add: backtest_lp_def final_state_def step_def update_latest_def init_state_def
      MIN_POOLS_FOR_REF_def eod_close_def Let_def flat_fields)

lemma inrange_run:
  "run_rows (3 / 2) 10 (1 / 1000) init_state (warmup_rows @ [signal_row, inrange_row])
     = Inr inrange_state"
proof -
  have "warmup_rows @ [signal_row, inrange_row] = (warmup_rows @ [signal_row]) @ [inrange_row]"
    by simp
  then show ?thesis
    by (simp only: run_rows_append [of _ _ _ _ "warmup_rows @ [signal_row]"] signal_run)
       (simp add: inrange_step)
qed

lemma crash_fields:
  "row_pool crash_row = ''USDCETH500''" "row_timestamp crash_row = 14"
  "row_tick crash_row = - 300" "row_usd_per_eth crash_row = (10001 / 10000) ^ 300"
  by (simp_all add: crash_row_def swap_row_def usd_per_eth_from_tick_m300 del: power_numeral)

subsection \<open>C1: the tick range\<close>

text \<open>
  C1 as stated fails for the \<open>Above\<close> side: the code takes the floor of
  \<open>(entry_tick + spacing) / spacing\<close>, the claim a ceiling. At entry tick 5, fee tier 500
  (spacing 10) and a target of 0.1 percent the code returns the range \<open>(10, 20)\<close>, the
  claim's formula \<open>(20, 30)\<close>.
\<close>

theorem align_ticks_not_ceiling:
  "TICK_SPACING_MAP 500 = Some 10
   \<and> align_ticks_for_range 5 500 (1 / 1000) ''up'' = Inr (10, 20)
   \<and> plan_range_as_specified 5 10 (1 / 1000) ''up'' = (20, 30)"
  by (simp add: align_ticks_for_range_def plan_range_as_specified_def TICK_SPACING_MAP_def
      width_ticks_10)

text \<open>
  C1, amended: for a fee tier \<open>f\<close> with spacing \<open>s\<close> in the table and \<open>target_pct > -1\<close>
  (the logarithm raises otherwise), with \<open>width = max (ceil (ln (1 + target_pct) / ln 1.0001)) s\<close>
  and \<open>rd = floor (width / s) * s\<close>: direction \<open>down\<close> gives
  \<open>upper = floor (t / s) * s - s\<close> and \<open>lower = upper - rd\<close>; any other direction gives
  \<open>lower = floor ((t + s) / s) * s\<close> and \<open>upper = lower + rd\<close>. The collapse guard never
  fires.
\<close>

theorem align_ticks_for_range_formula:
  assumes "TICK_SPACING_MAP f = Some s" and "0 < 1 + target_pct"
  shows "align_ticks_for_range t f target_pct dir =
     (let width = max \<lceil>ln (1 + target_pct) / ln (10001 / 10000)\<rceil> s;
          rd = \<lfloor>real_of_int width / real_of_int s\<rfloor> * s
      in if dir = ''down'' then
           Inr (\<lfloor>real_of_int t / real_of_int s\<rfloor> * s - s - rd,
                \<lfloor>real_of_int t / real_of_int s\<rfloor> * s - s)
         else
           Inr (\<lfloor>real_of_int (t + s) / real_of_int s\<rfloor> * s,
                \<lfloor>real_of_int (t + s) / real_of_int s\<rfloor> * s + rd))"
proof -
  have s: "0 < s" using assms(1) by (rule tick_spacing_pos)
  define w where "w = max \<lceil>ln (1 + target_pct) / ln (10001 / 10000)\<rceil> s"
  have "s \<le> w" by (simp add: w_def)
  then have "0 < w div s" using s by (simp add: pos_imp_zdiv_pos_iff)
  then have rd: "0 < w div s * s" using s by simp
  show ?thesis
    using assms rd
    by (simp add: align_ticks_for_range_def Let_def floor_divide_of_int_eq
        w_def [symmetric] del: of_int_add)
qed

theorem align_ticks_for_range_formula_witness:
  "TICK_SPACING_MAP 500 = Some 10 \<and> (0 :: real) < 1 + 1 / 1000
   \<and> align_ticks_for_range 5 500 (1 / 1000) ''down'' = Inr (-20, -10)
   \<and> align_ticks_for_range 5 500 (1 / 1000) ''up'' = Inr (10, 20)"
proof -
  have h1: "TICK_SPACING_MAP 500 = Some 10" by (simp add: TICK_SPACING_MAP_def)
  have h2: "(0 :: real) < 1 + 1 / 1000" by simp
  have fl: "\<lfloor>(1 / 2 :: real)\<rfloor> = 0" "\<lfloor>(3 / 2 :: real)\<rfloor> = 1" by simp_all
  show ?thesis
    using align_ticks_for_range_formula [OF h1 h2, of 5 "''down''"]
      align_ticks_for_range_formula [OF h1 h2, of 5 "''up''"] h1
    by (simp add: width_ticks_10 fl)
qed

subsection \<open>C2: exposure accounting\<close>

text \<open>
  C2: after any number of rows of a run from the initial state, and after the end-of-data
  pass, the exposure counter is the sum of the notionals of the positions that are open,
  every notional is 1000, and the counter is at most 20000.
\<close>

theorem exposure_accounting:
  assumes "run_rows z_entry W tp init_state (take n all_df) = Inr st
           \<or> final_state all_df z_entry W tp = Inr st"
  shows "exposure st = sum_list (map notional (filter open_flag (open_positions st)))
       \<and> (\<forall>pos \<in> set (open_positions st). notional pos = 1000)
       \<and> exposure st \<le> 20000"
proof -
  have "exposure_inv st"
    using assms
  proof
    assume "run_rows z_entry W tp init_state (take n all_df) = Inr st"
    then show ?thesis using exposure_inv_init by (rule run_rows_exposure)
  next
    assume "final_state all_df z_entry W tp = Inr st"
    then obtain s where "run_rows z_entry W tp init_state all_df = Inr s"
      and "eod_close all_df s = Inr st"
      by (auto simp: final_state_def split: sum.splits)
    then show ?thesis
      using eod_close_exposure run_rows_exposure exposure_inv_init by blast
  qed
  then show ?thesis
    by (simp add: exposure_inv_def sum_open_notional_filter POSITION_SIZE_USD_def
        CAPITAL_LIMIT_USD_def)
qed

theorem exposure_accounting_witness:
  "run_rows (3 / 2) 10 (1 / 1000) init_state (take 12 (warmup_rows @ [signal_row]))
     = Inr signal_state
   \<and> exposure signal_state = 1000
   \<and> exposure signal_state
       = sum_list (map notional (filter open_flag (open_positions signal_state)))
   \<and> exposure signal_state \<le> 20000"
proof -
  have h: "run_rows (3 / 2) 10 (1 / 1000) init_state (take 12 (warmup_rows @ [signal_row]))
     = Inr signal_state"
    by (rule signal_run_take)
  have "exposure signal_state = 1000" by (simp add: signal_state_def)
  then show ?thesis
    using exposure_accounting [OF disjI1 [OF h]] h by simp
qed

subsection \<open>C3: the stop-loss is tested first\<close>

text \<open>
  C3: on an open position of the row's pool whose stop-loss condition holds
  (\<open>adverse > 0.02\<close> for \<open>down\<close>, \<open>adverse < -0.02\<close> for \<open>up\<close>, with
  \<open>adverse = (price_now - entry_price) / entry_price\<close>), the loop body closes the
  position with reason \<open>stop_loss\<close>: the position changes in its open flag only, so no
  fee of this row is accrued and \<open>ever_in_range\<close> is not touched, and the record carries
  the fees accrued before this row, whatever the tick is. For a whole event on a state
  reached by the event loop: the position is closed in this way, and the trade log grows
  by its \<open>stop_loss\<close> record, followed at most by the record of a position opened by the
  same row; no \<open>passed_range\<close> record is written.
\<close>

theorem stop_loss_wins:
  assumes "open_flag pos" and "pool pos = row_pool r"
    and "(direction pos = ''down''
            \<and> (row_usd_per_eth r - entry_price pos) / entry_price pos > 2 / 100)
         \<or> (direction pos = ''up''
            \<and> (row_usd_per_eth r - entry_price pos) / entry_price pos < - (2 / 100))"
  shows "(\<exists>amt0 amt1 pnl.
       amounts_at_price (L_user pos) (tick_lower pos) (tick_upper pos) (row_tick r)
         = Inr (amt0, amt1)
       \<and> pnl = ((amt0 + amt1 * row_usd_per_eth r) - notional pos) + fees_usd pos
       \<and> manage_position r pos st =
           Inr (pos\<lparr>open_flag := False\<rparr>,
                st\<lparr>equity := equity st + pnl,
                   exposure := exposure st - notional pos,
                   trades := trades st @
                     [close_record pos (row_timestamp r) (row_usd_per_eth r) pnl ''stop_loss''],
                   has_open := (has_open st)(pool pos := False)\<rparr>))
     \<and> (\<forall>rs s i s'.
           run_rows z_entry W tp init_state rs = Inr s
           \<and> i < length (open_positions s) \<and> open_positions s ! i = pos
           \<and> step z_entry W tp s r = Inr s'
           \<longrightarrow> i < length (open_positions s')
               \<and> open_positions s' ! i = pos\<lparr>open_flag := False\<rparr>
               \<and> (\<exists>pnl rest.
                    trades s' = trades s
                      @ close_record pos (row_timestamp r) (row_usd_per_eth r) pnl ''stop_loss''
                        # rest
                    \<and> (rest = [] \<or> (\<exists>t. rest = [t] \<and> is_open_record t))))"
  using manage_position_stop_loss [OF assms, of st] step_stop_loss [OF _ _ _ assms]
  by blast

theorem stop_loss_wins_witness:
  "open_flag inrange_pos \<and> pool inrange_pos = row_pool crash_row
   \<and> direction inrange_pos = ''down''
   \<and> (row_usd_per_eth crash_row - entry_price inrange_pos) / entry_price inrange_pos > 2 / 100
   \<and> ever_in_range inrange_pos \<and> row_tick crash_row < tick_lower inrange_pos
   \<and> run_rows (3 / 2) 10 (1 / 1000) init_state (warmup_rows @ [signal_row, inrange_row])
       = Inr inrange_state
   \<and> open_positions inrange_state ! 0 = inrange_pos
   \<and> (\<exists>s' pnl rest.
         step (3 / 2) 10 (1 / 1000) inrange_state crash_row = Inr s'
         \<and> open_positions s' ! 0 = inrange_pos\<lparr>open_flag := False\<rparr>
         \<and> trades s' = trades inrange_state
             @ close_record inrange_pos 14 ((10001 / 10000) ^ 300) pnl ''stop_loss'' # rest)"
proof -
  have f: "open_flag inrange_pos" "pool inrange_pos = row_pool crash_row"
    "direction inrange_pos = ''down''" "ever_in_range inrange_pos"
    "row_tick crash_row < tick_lower inrange_pos"
    "entry_price inrange_pos = 10001 / 10000"
    by (simp_all add: inrange_pos_def signal_pos_def crash_fields)
  have a: "(row_usd_per_eth crash_row - entry_price inrange_pos) / entry_price inrange_pos
      > 2 / 100"
    using crash_adverse by (simp only: f crash_fields)
  have d: "(direction inrange_pos = ''down''
            \<and> (row_usd_per_eth crash_row - entry_price inrange_pos) / entry_price inrange_pos > 2 / 100)
         \<or> (direction inrange_pos = ''up''
            \<and> (row_usd_per_eth crash_row - entry_price inrange_pos) / entry_price inrange_pos < - (2 / 100))"
    using f(3) a by blast
  have reach: "run_rows (3 / 2) 10 (1 / 1000) init_state (warmup_rows @ [signal_row, inrange_row])
       = Inr inrange_state"
    by (rule inrange_run)
  have i: "(0 :: nat) < length (open_positions inrange_state)"
    and p: "open_positions inrange_state ! 0 = inrange_pos"
    by (simp_all add: inrange_state_def)
  have warm: "MIN_POOLS_FOR_REF \<le> length (latest_price (update_latest crash_row inrange_state))"
    using reach i by (intro reachable_warm) auto
  define p_ref where
    "p_ref = np_median (map snd (latest_price (update_latest crash_row inrange_state)))"
  define st2 where "st2 = record_deviation 600 crash_row
      (row_usd_per_eth crash_row - p_ref) (update_latest crash_row inrange_state)"
  obtain st3 where m: "manage_positions crash_row st2 = Inr st3"
    using manage_positions_stop_loss [OF reach i p f(1,2) d, of st2]
    by (auto simp: st2_def)
  have nz: "row_usd_per_eth crash_row \<noteq> 0" by (simp add: crash_fields)
  obtain z where z: "zscore (row_usd_per_eth crash_row - p_ref)
      (map snd (diffs_by_pool st2 (row_pool crash_row))) = Inr z"
    by (simp add: zscore_total)
  obtain s' where e: "entry_signal (3 / 2) (1 / 1000) crash_row p_ref z st3 = Inr s'"
    using entry_signal_total [of crash_row 500 10 "1 / 1000" "3 / 2" p_ref z st3] nz
    by (auto simp: crash_fields signal_fee TICK_SPACING_MAP_def)
  have s: "step (3 / 2) 10 (1 / 1000) inrange_state crash_row = Inr s'"
    using warm z m e
    by (simp add: step_def Let_def p_ref_def [symmetric] st2_def [symmetric])
  from stop_loss_wins [OF f(1,2) d, of inrange_state "3 / 2" 10 "1 / 1000"] reach i p s
  obtain pnl rest where "open_positions s' ! 0 = inrange_pos\<lparr>open_flag := False\<rparr>"
    "trades s' = trades inrange_state
        @ close_record inrange_pos (row_timestamp crash_row) (row_usd_per_eth crash_row) pnl
            ''stop_loss'' # rest"
    by blast
  then have "\<exists>s' pnl rest.
         step (3 / 2) 10 (1 / 1000) inrange_state crash_row = Inr s'
         \<and> open_positions s' ! 0 = inrange_pos\<lparr>open_flag := False\<rparr>
         \<and> trades s' = trades inrange_state
             @ close_record inrange_pos 14 ((10001 / 10000) ^ 300) pnl ''stop_loss'' # rest"
    using s by (auto simp: crash_fields simp del: power_numeral)
  then show ?thesis using f a reach p by blast
qed

subsection \<open>C4: sizing followed by valuation at the boundary\<close>

text \<open>
  C4: for \<open>tick_l < tick_u\<close>, liquidity sized from a token1 amount is
  \<open>amount / (sb - sa)\<close> and is valued at \<open>(0, amount)\<close> at every tick at or above
  \<open>tick_u\<close>; liquidity sized from a token0 amount is \<open>amount * sa * sb / (sb - sa)\<close> and
  is valued at \<open>(amount, 0)\<close> at every tick at or below \<open>tick_l\<close>. Neither call raises.
\<close>

theorem sizing_then_valuation_recovers_amount:
  assumes "tick_l < tick_u"
  shows "(\<exists>L. L_from_amounts_single_side tick_l tick_u None (Some amount) = Inr L
            \<and> L = amount / (sqrt_ratio_from_tick tick_u - sqrt_ratio_from_tick tick_l)
            \<and> (\<forall>tick_now \<ge> tick_u.
                 amounts_at_price L tick_l tick_u tick_now = Inr (0, amount)))
       \<and> (\<exists>L. L_from_amounts_single_side tick_l tick_u (Some amount) None = Inr L
            \<and> L = amount * sqrt_ratio_from_tick tick_l * sqrt_ratio_from_tick tick_u
                    / (sqrt_ratio_from_tick tick_u - sqrt_ratio_from_tick tick_l)
            \<and> (\<forall>tick_now \<le> tick_l.
                 amounts_at_price L tick_l tick_u tick_now = Inr (amount, 0)))"
proof -
  have lt: "sqrt_ratio_from_tick tick_l < sqrt_ratio_from_tick tick_u"
    using assms by (rule sqrt_ratio_strict_mono)
  have pa: "0 < sqrt_ratio_from_tick tick_l" and pb: "0 < sqrt_ratio_from_tick tick_u"
    by (rule sqrt_ratio_pos)+
  show ?thesis
    using lt pa pb assms
    by (simp add: L_from_amounts_single_side_def amounts_at_price_total py_div_def Let_def)
qed


theorem sizing_then_valuation_recovers_amount_witness:
  "(-30 :: int) < -20
   \<and> (\<exists>L. L_from_amounts_single_side (-30) (-20) None (Some 1) = Inr L
         \<and> amounts_at_price L (-30) (-20) (-1) = Inr (0, 1))
   \<and> (\<exists>L. L_from_amounts_single_side (-30) (-20) (Some 1000) None = Inr L
         \<and> amounts_at_price L (-30) (-20) (-40) = Inr (1000, 0))"
  using sizing_then_valuation_recovers_amount [of "-30" "-20" 1]
    sizing_then_valuation_recovers_amount [of "-30" "-20" 1000]
  by simp

subsection \<open>C5: the end-of-data pass\<close>

text \<open>
  C5: when the event loop has run over all rows, the end-of-data pass succeeds and leaves
  no position open. For every position that was open, in list order, one record with
  reason \<open>eod\<close> is appended to the trade log; its exit time and price are those of
  the last row of the position's own pool, the position is valued with
  \<open>amounts_at_price\<close> at that row's tick as \<open>amt0 + amt1 * price\<close>, the equity
  grows by \<open>(value - notional) + fees_usd\<close> and the exposure shrinks by the notional.
\<close>

theorem end_of_data_closes_all:
  assumes "run_rows z_entry W tp init_state all_df = Inr st"
  shows "\<exists>st'. final_state all_df z_entry W tp = Inr st'
     \<and> (\<forall>pos \<in> set (open_positions st'). \<not> open_flag pos)
     \<and> open_positions st' = map (\<lambda>pos. pos\<lparr>open_flag := False\<rparr>) (open_positions st)
     \<and> trades st' = trades st @ map (eod_trade all_df) (filter open_flag (open_positions st))
     \<and> equity st' = equity st
          + sum_list (map (eod_pnl all_df) (filter open_flag (open_positions st)))
     \<and> exposure st' = exposure st
          - sum_list (map notional (filter open_flag (open_positions st)))
     \<and> (\<forall>pos \<in> set (filter open_flag (open_positions st)).
          (\<exists>pre post. all_df = pre @ last_row all_df (pool pos) # post
              \<and> row_pool (last_row all_df (pool pos)) = pool pos
              \<and> (\<forall>r \<in> set post. row_pool r \<noteq> pool pos))
          \<and> eod_trade all_df pos
              = close_record pos (row_timestamp (last_row all_df (pool pos)))
                  (row_usd_per_eth (last_row all_df (pool pos))) (eod_pnl all_df pos) ''eod''
          \<and> (\<exists>amt0 amt1.
               amounts_at_price (L_user pos) (tick_lower pos) (tick_upper pos)
                 (row_tick (last_row all_df (pool pos))) = Inr (amt0, amt1)
               \<and> eod_pnl all_df pos
                   = ((amt0 + amt1 * row_usd_per_eth (last_row all_df (pool pos)))
                      - notional pos) + fees_usd pos))"
proof -
  have seen: "\<forall>pos \<in> set (open_positions st). pool pos \<in> row_pool ` set all_df"
    using assms by (rule run_rows_pools_seen)
  define st' where "st' = st\<lparr>equity := equity st
                 + sum_list (map (eod_pnl all_df) (filter open_flag (open_positions st))),
             exposure := exposure st
                 - sum_list (map notional (filter open_flag (open_positions st))),
             trades := trades st @ map (eod_trade all_df) (filter open_flag (open_positions st)),
             open_positions := map (\<lambda>pos. pos\<lparr>open_flag := False\<rparr>) (open_positions st)\<rparr>"
  have fin: "final_state all_df z_entry W tp = Inr st'"
    by (simp add: final_state_def assms eod_close_spec [OF seen] st'_def)
  have last: "\<exists>pre post. all_df = pre @ last_row all_df (pool pos) # post
              \<and> row_pool (last_row all_df (pool pos)) = pool pos
              \<and> (\<forall>r \<in> set post. row_pool r \<noteq> pool pos)"
    if "pos \<in> set (filter open_flag (open_positions st))" for pos
    using that seen by (intro last_row_is_last) simp
  have tr: "eod_trade all_df pos
              = close_record pos (row_timestamp (last_row all_df (pool pos)))
                  (row_usd_per_eth (last_row all_df (pool pos))) (eod_pnl all_df pos) ''eod''"
    for pos
    by (simp add: eod_trade_def Let_def)
  show ?thesis
  proof (intro exI [of _ st'] conjI ballI)
    show "final_state all_df z_entry W tp = Inr st'" by (rule fin)
  qed (auto simp: st'_def last tr eod_pnl_formula)
qed

theorem end_of_data_closes_all_witness:
  "run_rows (3 / 2) 10 (1 / 1000) init_state (warmup_rows @ [signal_row]) = Inr signal_state
   \<and> (\<exists>st'. final_state (warmup_rows @ [signal_row]) (3 / 2) 10 (1 / 1000) = Inr st'
         \<and> filter open_flag (open_positions st') = []
         \<and> trades st' = trades signal_state
             @ [close_record signal_pos 12 (10001 / 10000) 0 ''eod'']
         \<and> equity st' = 0 \<and> exposure st' = 0)"
proof -
  have h: "run_rows (3 / 2) 10 (1 / 1000) init_state (warmup_rows @ [signal_row])
      = Inr signal_state"
    by (rule signal_run)
  have o: "filter open_flag (open_positions signal_state) = [signal_pos]"
    by (simp add: signal_state_def signal_pos_def)
  have t: "eod_trade (warmup_rows @ [signal_row]) signal_pos
      = close_record signal_pos 12 (10001 / 10000) 0 ''eod''"
  proof -
    have "pool signal_pos = ''USDCETH500''" by (simp add: signal_pos_def)
    then show ?thesis
      by (simp add: eod_trade_def signal_eod_pnl Let_def signal_last_row_fields)
  qed
  have v: "equity signal_state = 0" "exposure signal_state = 1000" "notional signal_pos = 1000"
    by (simp_all add: signal_state_def signal_pos_def)
  show ?thesis
    using end_of_data_closes_all [OF h] h
    by (simp add: o t v signal_eod_pnl filter_empty_conv) blast
qed

subsection \<open>C6: the grid search\<close>

text \<open>
  C6: the three nested loops visit the combinations in the order window, then z
  threshold, then range width (the list of 30 triples below), each with its own run of
  \<open>backtest_lp\<close> from the initial state over the same rows. The search returns exactly
  when all 30 runs return. The combination it returns has the roi of its own run, every
  combination visited before it has a strictly smaller roi and every combination visited
  after it has a roi that is not greater: the maximum, and under ties the earliest.
\<close>

theorem grid_search_best:
  "((\<forall>c \<in> set (grid WINDOW_MINUTES Z_CANDIDATES RANGE_PCT_CAND). run_ok df c)
      \<longleftrightarrow> (\<exists>res. grid_search df = Inr res))
   \<and> (grid_search df = Inr (roi, (z, W, rpct), pl) \<longrightarrow>
        (\<exists>pre post.
            grid WINDOW_MINUTES Z_CANDIDATES RANGE_PCT_CAND = pre @ (W, z, rpct) # post
          \<and> backtest_lp df z W rpct = Inr (roi, pl)
          \<and> (\<forall>c \<in> set pre. roi_of df c < roi)
          \<and> (\<forall>c \<in> set post. roi_of df c \<le> roi)))
   \<and> grid WINDOW_MINUTES Z_CANDIDATES RANGE_PCT_CAND =
     [(5, 125 / 100, 5 / 10000), (5, 125 / 100, 10 / 10000),
      (5, 15 / 10, 5 / 10000), (5, 15 / 10, 10 / 10000),
      (5, 175 / 100, 5 / 10000), (5, 175 / 100, 10 / 10000),
      (5, 2, 5 / 10000), (5, 2, 10 / 10000),
      (5, 25 / 10, 5 / 10000), (5, 25 / 10, 10 / 10000),
      (10, 125 / 100, 5 / 10000), (10, 125 / 100, 10 / 10000),
      (10, 15 / 10, 5 / 10000), (10, 15 / 10, 10 / 10000),
      (10, 175 / 100, 5 / 10000), (10, 175 / 100, 10 / 10000),
      (10, 2, 5 / 10000), (10, 2, 10 / 10000),
      (10, 25 / 10, 5 / 10000), (10, 25 / 10, 10 / 10000),
      (15, 125 / 100, 5 / 10000), (15, 125 / 100, 10 / 10000),
      (15, 15 / 10, 5 / 10000), (15, 15 / 10, 10 / 10000),
      (15, 175 / 100, 5 / 10000), (15, 175 / 100, 10 / 10000),
      (15, 2, 5 / 10000), (15, 2, 10 / 10000),
      (15, 25 / 10, 5 / 10000), (15, 25 / 10, 10 / 10000)]"
proof -
  define G where "G = grid WINDOW_MINUTES Z_CANDIDATES RANGE_PCT_CAND"
  have gs: "grid_search df =
      (case scan df G None of Inl e \<Rightarrow> Inl e | Inr None \<Rightarrow> Inl TypeError
       | Inr (Some b) \<Rightarrow> Inr b)"
    by (simp add: grid_search_def loop_W_scan G_def)
  have ne: "G \<noteq> []" by (simp add: G_def grid_order)
  have a: "(\<forall>c \<in> set G. run_ok df c) \<longleftrightarrow> (\<exists>res. grid_search df = Inr res)"
  proof
    assume "\<forall>c \<in> set G. run_ok df c"
    then obtain b' where "scan df G None = Inr b'" "b' = None \<longrightarrow> G = []"
      using scan_total [of G df None] by blast
    then show "\<exists>res. grid_search df = Inr res"
      using ne by (cases b') (simp_all add: gs del: split_paired_Ex)
  next
    assume "\<exists>res. grid_search df = Inr res"
    then obtain b' where "scan df G None = Inr b'"
      by (auto simp: gs split: sum.splits)
    then show "\<forall>c \<in> set G. run_ok df c" by (rule scan_ok)
  qed
  have b: "\<exists>pre post. G = pre @ (W, z, rpct) # post
          \<and> backtest_lp df z W rpct = Inr (roi, pl)
          \<and> (\<forall>c \<in> set pre. roi_of df c < roi)
          \<and> (\<forall>c \<in> set post. roi_of df c \<le> roi)"
    if "grid_search df = Inr (roi, (z, W, rpct), pl)"
  proof -
    from that have "scan df G None = Inr (Some (roi, (z, W, rpct), pl))"
      by (auto simp: gs split: sum.splits option.splits)
    from scan_best [OF this] obtain pre post where
      "G = pre @ (W, z, rpct) # post" "backtest_lp df z W rpct = Inr (roi, pl)"
      "\<forall>c \<in> set pre. roi_of df c < roi" "\<forall>c \<in> set G. roi_of df c \<le> roi"
      by auto
    then show ?thesis by auto
  qed
  show ?thesis
    using a b grid_order unfolding G_def by blast
qed

theorem grid_search_best_witness:
  "grid_search [flat_row] =
     Inr (0, (125 / 100, 5, 5 / 10000),
          (\<lparr> m_z_entry = 125 / 100, m_window_min = 5, m_range_pct = 5 / 10000,
              m_equity_usd = 0, m_roi_on_20k = 0, m_num_trades = 0 \<rparr>, []))"
proof -
  have ok: "\<forall>c \<in> set (grid WINDOW_MINUTES Z_CANDIDATES RANGE_PCT_CAND). run_ok [flat_row] c"
    by (auto simp: run_ok_def single_row_backtest)
  have r0: "roi_of [flat_row] c = 0" for c
    by (cases c) (simp add: roi_of_def single_row_backtest)
  obtain roi z W rpct pl where g: "grid_search [flat_row] = Inr (roi, (z, W, rpct), pl)"
    using grid_search_best [of "[flat_row]"] ok by (metis prod_cases3)
  then obtain pre post where
    sp: "grid WINDOW_MINUTES Z_CANDIDATES RANGE_PCT_CAND = pre @ (W, z, rpct) # post"
    and bt: "backtest_lp [flat_row] z W rpct = Inr (roi, pl)"
    and pr: "\<forall>c \<in> set pre. roi_of [flat_row] c < roi"
    using grid_search_best [of "[flat_row]" roi z W rpct pl] by blast
  have roi: "roi = 0" using bt by (simp add: single_row_backtest)
  have "pre = []"
  proof (cases pre)
    case Nil
    then show ?thesis .
  next
    case (Cons c cs)
    then have "roi_of [flat_row] c < 0" using pr roi by simp
    then show ?thesis by (simp add: r0)
  qed
  then have e: "W = 5" "z = 125 / 100" "rpct = 5 / 10000"
    using sp by (simp_all add: grid_order)
  have "pl = (\<lparr> m_z_entry = 125 / 100, m_window_min = 5, m_range_pct = 5 / 10000,
              m_equity_usd = 0, m_roi_on_20k = 0, m_num_trades = 0 \<rparr>, [])"
    using bt unfolding e by (simp add: single_row_backtest)
  then show ?thesis using g roi unfolding e by simp
qed

subsection \<open>C7: the division by the window's standard deviation\<close>

text \<open>
  C7: the z-score is undefined when the window holds fewer than 10 samples or its
  sample standard deviation (\<open>ddof = 1\<close>) is at most \<open>1e-12\<close>; otherwise it is
  \<open>(d - mean) / sd\<close> with a divisor that is not zero. The computation never raises.
  With an undefined z-score the entry rule leaves the state as it is, so the whole
  event is the management of the pool's open positions and nothing else.
\<close>

theorem zscore_division_guarded:
  "(length vals < 10 \<or> np_std_ddof1 vals \<le> 1 / 10 ^ 12 \<longrightarrow> zscore d vals = Inr None)
   \<and> (10 \<le> length vals \<and> 1 / 10 ^ 12 < np_std_ddof1 vals \<longrightarrow>
        np_std_ddof1 vals \<noteq> 0
        \<and> zscore d vals = Inr (Some ((d - np_mean vals) / np_std_ddof1 vals)))
   \<and> zscore d vals \<noteq> Inl e
   \<and> entry_signal z_entry tp r p_ref None st = Inr st
   \<and> (let st1 = update_latest r st;
           p_ref' = np_median (map snd (latest_price st1));
           d' = row_usd_per_eth r - p_ref';
           st2 = record_deviation (W * 60) r d' st1
       in MIN_POOLS_FOR_REF \<le> length (latest_price st1)
          \<and> zscore d' (map snd (diffs_by_pool st2 (row_pool r))) = Inr None
          \<longrightarrow> step z_entry W tp st r = manage_positions r st2)"
proof -
  have "step z_entry W tp st r = manage_positions r st2"
    if "st1 = update_latest r st" "p_ref' = np_median (map snd (latest_price st1))"
      "d' = row_usd_per_eth r - p_ref'" "st2 = record_deviation (W * 60) r d' st1"
      "MIN_POOLS_FOR_REF \<le> length (latest_price st1)"
      "zscore d' (map snd (diffs_by_pool st2 (row_pool r))) = Inr None"
    for st1 p_ref' d' st2
    using that
    by (simp add: step_def Let_def entry_signal_None split: sum.splits)
  then show ?thesis
    by (simp add: zscore_total entry_signal_None Let_def)
qed

theorem zscore_division_guarded_witness:
  "zscore (1 / 10000) [0, 0, 0, 0, 0, 0, 0, 0, 0, 1 / 10000]
     = Inr (Some ((1 / 10000 - np_mean [0, 0, 0, 0, 0, 0, 0, 0, 0, 1 / 10000])
                  / np_std_ddof1 [0, 0, 0, 0, 0, 0, 0, 0, 0, 1 / 10000]))
   \<and> np_std_ddof1 [0, 0, 0, 0, 0, 0, 0, 0, 0, 1 / 10000] \<noteq> 0
   \<and> zscore 0 [0, 0, 0, 0, 0, 0, 0, 0, 0, 0] = Inr None
   \<and> zscore 5 [1, 2, 3] = Inr None
   \<and> step (3 / 2) 10 (1 / 1000) warm_state flat_row
       = manage_positions flat_row
           (record_deviation 600 flat_row 0 (update_latest flat_row warm_state))"
proof -
  have a: "(10 :: nat) \<le> length [0, 0, 0, 0, 0, 0, 0, 0, 0, 1 / 10000 :: real]
      \<and> 1 / 10 ^ 12 < np_std_ddof1 [0, 0, 0, 0, 0, 0, 0, 0, 0, 1 / 10000]"
    using signal_sd_large by (simp add: signal_sd)
  have b: "length [0, 0, 0, 0, 0, 0, 0, 0, 0, 0 :: real] < 10
      \<or> np_std_ddof1 [0, 0, 0, 0, 0, 0, 0, 0, 0, 0] \<le> 1 / 10 ^ 12"
    by (simp add: np_std_ten_zeros)
  have c: "length [1, 2, 3 :: real] < 10 \<or> np_std_ddof1 [1, 2, 3] \<le> 1 / 10 ^ 12"
    by simp
  have m: "np_median (map snd (latest_price (update_latest flat_row warm_state))) = 1"
    by (simp add: update_latest_def warm_state_def flat_fields np_median_def)
  have w: "map snd (diffs_by_pool (record_deviation 600 flat_row 0
      (update_latest flat_row warm_state)) ''USDCETH500'') = [0, 0, 0, 0, 0, 0, 0, 0, 0, 0]"
    by (simp add: record_deviation_def update_latest_def warm_state_def flat_fields
        push_window_def)
  have l: "MIN_POOLS_FOR_REF \<le> length (latest_price (update_latest flat_row warm_state))"
    by (simp add: update_latest_def warm_state_def flat_fields MIN_POOLS_FOR_REF_def)
  have z0: "zscore 0 [0, 0, 0, 0, 0, 0, 0, 0, 0, 0] = Inr None"
    using zscore_division_guarded [of "[0, 0, 0, 0, 0, 0, 0, 0, 0, 0]" 0] b by blast
  have s: "step (3 / 2) 10 (1 / 1000) warm_state flat_row
       = manage_positions flat_row
           (record_deviation 600 flat_row 0 (update_latest flat_row warm_state))"
    using zscore_division_guarded [of "[]" 0 KeyError "3 / 2" "1 / 1000" flat_row 0
        warm_state 10] l z0
    by (simp add: Let_def m w flat_fields)
  show ?thesis
    using zscore_division_guarded [of "[0, 0, 0, 0, 0, 0, 0, 0, 0, 1 / 10000]" "1 / 10000"] a
      zscore_division_guarded [of "[1, 2, 3]" 5] c z0 s
    by blast
qed

subsection \<open>C8: at most one open position per pool\<close>

text \<open>
  C8: after any number of rows of a run from the initial state, and after the end-of-data
  pass, every pool has at most one open position. During the event loop the flag
  \<open>has_open\<close> of a pool is set exactly when the pool has an open position; the entry rule
  tests that flag after the management loop, so a pool gets a new position only when its
  previous one is closed.
\<close>

theorem one_open_position_per_pool:
  assumes "run_rows z_entry W tp init_state (take n all_df) = Inr st
           \<or> final_state all_df z_entry W tp = Inr st"
  shows "length (filter (\<lambda>pos. open_flag pos \<and> pool pos = p) (open_positions st)) \<le> 1
       \<and> (run_rows z_entry W tp init_state (take n all_df) = Inr st \<longrightarrow>
            (has_open st p \<longleftrightarrow> (\<exists>pos \<in> set (open_positions st). open_flag pos \<and> pool pos = p)))"
proof -
  have a: "length (filter (\<lambda>pos. open_flag pos \<and> pool pos = p) (open_positions s))
      = (if has_open s p then 1 else 0)"
    if "run_rows z_entry W tp init_state rs = Inr s" for rs s
    using run_rows_pool [OF that pool_inv_init]
    by (simp add: pool_inv_def sum_open_on_filter)
  have b: "has_open s p \<longleftrightarrow> (\<exists>pos \<in> set (open_positions s). open_flag pos \<and> pool pos = p)"
    if "run_rows z_entry W tp init_state rs = Inr s" for rs s
  proof -
    have "has_open s p \<longleftrightarrow> filter (\<lambda>pos. open_flag pos \<and> pool pos = p) (open_positions s) \<noteq> []"
      using a [OF that] by (auto split: if_splits)
    then show ?thesis by (simp add: filter_empty_conv)
  qed
  have c: "length (filter (\<lambda>pos. open_flag pos \<and> pool pos = p) (open_positions st)) \<le> 1"
    using assms
  proof
    assume "run_rows z_entry W tp init_state (take n all_df) = Inr st"
    then show ?thesis using a by simp
  next
    assume "final_state all_df z_entry W tp = Inr st"
    then obtain s where "eod_close all_df s = Inr st"
      by (auto simp: final_state_def split: sum.splits)
    then have "\<forall>pos \<in> set (open_positions st). \<not> open_flag pos"
      by (rule eod_close_all_closed)
    then have "filter (\<lambda>pos. open_flag pos \<and> pool pos = p) (open_positions st) = []"
      by (simp add: filter_empty_conv)
    then show ?thesis by simp
  qed
  show ?thesis using c b by blast
qed

theorem one_open_position_per_pool_witness:
  "run_rows (3 / 2) 10 (1 / 1000) init_state (take 12 (warmup_rows @ [signal_row]))
     = Inr signal_state
   \<and> length (filter (\<lambda>pos. open_flag pos \<and> pool pos = ''USDCETH500'')
        (open_positions signal_state)) = 1
   \<and> has_open signal_state ''USDCETH500''
   \<and> \<not> has_open signal_state ''DAIETH500''
   \<and> length (filter (\<lambda>pos. open_flag pos \<and> pool pos = ''DAIETH500'')
        (open_positions signal_state)) = 0"
proof -
  have h: "run_rows (3 / 2) 10 (1 / 1000) init_state (take 12 (warmup_rows @ [signal_row]))
     = Inr signal_state"
    by (rule signal_run_take)
  have c1: "length (filter (\<lambda>pos. open_flag pos \<and> pool pos = ''USDCETH500'')
        (open_positions signal_state)) = 1"
    by (simp add: signal_state_def signal_pos_def)
  have c2: "has_open signal_state ''USDCETH500''"
    using one_open_position_per_pool [OF disjI1 [OF h], of "''USDCETH500''"] h
    by (simp add: signal_state_def signal_pos_def)
  have c3: "\<not> has_open signal_state ''DAIETH500''"
    by (simp add: signal_state_def)
  have c4: "length (filter (\<lambda>pos. open_flag pos \<and> pool pos = ''DAIETH500'')
        (open_positions signal_state)) = 0"
    using one_open_position_per_pool [OF disjI1 [OF h], of "''DAIETH500''"] h c3
    by (simp add: filter_empty_conv)
  show ?thesis
    using h c1 c2 c3 c4 by blast
qed

subsection \<open>C9: the records of the trade log\<close>

text \<open>
  C9 as stated fails: the record appended when a position is opened has no \<open>reason\<close>
  key at all; it carries \<open>action = open\<close> and a note instead. The scripted run opens a
  position at its twelfth row, and the record it appends has no reason.
\<close>

theorem open_record_without_reason:
  "run_rows (3 / 2) 10 (1 / 1000) init_state (warmup_rows @ [signal_row]) = Inr signal_state
   \<and> trades signal_state
       = [open_record ''USDCETH500'' ''down'' 12 (10001 / 10000) (- 30) (- 20) signal_z (3 / 2)]
   \<and> map_of (hd (trades signal_state)) ''reason'' = None
   \<and> map_of (hd (trades signal_state)) ''reason'' \<noteq> Some (VStr ''signal_open'')
   \<and> map_of (hd (trades signal_state)) ''action'' = Some (VStr ''open'')"
  by (simp add: signal_run) (simp add: signal_state_def open_record_def)

text \<open>
  C9, amended: every record of the trade log, after any number of rows and after the
  end-of-data pass, is either a closing record, whose \<open>reason\<close> is one of
  \<open>stop_loss\<close>, \<open>passed_range\<close>, \<open>eod\<close> and which has no \<open>action\<close> key, or an
  opening record, which has \<open>action = open\<close> and no \<open>reason\<close> key.
\<close>

theorem trade_records_shape:
  assumes "run_rows z_entry W tp init_state (take n all_df) = Inr st
           \<or> final_state all_df z_entry W tp = Inr st"
  shows "\<forall>t \<in> set (trades st). is_close_record t \<or> is_open_record t"
proof -
  have i: "trades_inv init_state" by (simp add: trades_inv_def init_state_def)
  have "trades_inv st"
    using assms
  proof
    assume "run_rows z_entry W tp init_state (take n all_df) = Inr st"
    then show ?thesis using i by (rule run_rows_trades)
  next
    assume "final_state all_df z_entry W tp = Inr st"
    then obtain s where "run_rows z_entry W tp init_state all_df = Inr s"
      and "eod_close all_df s = Inr st"
      by (auto simp: final_state_def split: sum.splits)
    then show ?thesis
      using eod_close_trades run_rows_trades i by blast
  qed
  then show ?thesis by (simp add: trades_inv_def)
qed

theorem trade_records_shape_witness:
  "run_rows (3 / 2) 10 (1 / 1000) init_state (take 12 (warmup_rows @ [signal_row]))
     = Inr signal_state
   \<and> is_open_record (hd (trades signal_state))
   \<and> \<not> is_close_record (hd (trades signal_state))"
proof -
  have h: "run_rows (3 / 2) 10 (1 / 1000) init_state (take 12 (warmup_rows @ [signal_row]))
     = Inr signal_state"
    by (rule signal_run_take)
  have t: "hd (trades signal_state) \<in> set (trades signal_state)"
    by (simp add: signal_state_def)
  have n: "\<not> is_close_record (hd (trades signal_state))"
    by (simp add: signal_state_def is_close_record_def open_record_def)
  show ?thesis
    using trade_records_shape [OF disjI1 [OF h]] h t n by blast
qed

subsection \<open>C10: the entry fields of a position are never rewritten\<close>

text \<open>
  C10: a position that exists in some state keeps its place in the list and its fields
  \<open>pool\<close>, \<open>fee\<close>, \<open>direction\<close>, \<open>entry_ts\<close>, \<open>entry_tick\<close>, \<open>entry_price\<close>,
  \<open>tick_lower\<close>, \<open>tick_upper\<close>, \<open>L_user\<close> and \<open>notional\<close> through any further
  rows and through the end-of-data pass; only \<open>fees_usd\<close>, \<open>ever_in_range\<close> and
  the open flag can differ.
\<close>

theorem entry_fields_frozen:
  assumes "run_rows z_entry W tp st rs = Inr st'" and "i < length (open_positions st)"
  shows "i < length (open_positions st')
       \<and> same_entry_fields (open_positions st ! i) (open_positions st' ! i)
       \<and> (\<forall>st''. eod_close all_df st' = Inr st'' \<longrightarrow>
            i < length (open_positions st'')
            \<and> same_entry_fields (open_positions st ! i) (open_positions st'' ! i)
            \<and> \<not> open_flag (open_positions st'' ! i))"
proof -
  from run_rows_frame [OF assms(1)] obtain ps new where
    p: "open_positions st' = ps @ new"
    and f: "list_all2 same_entry_fields (open_positions st) ps"
    by blast
  have len: "length ps = length (open_positions st)"
    using f by (simp add: list_all2_lengthD)
  have i': "i < length (open_positions st')" using assms(2) len by (simp add: p)
  have s1: "same_entry_fields (open_positions st ! i) (open_positions st' ! i)"
    using f assms(2) len by (simp add: p nth_append list_all2_nthD)
  have "i < length (open_positions st'')
     \<and> same_entry_fields (open_positions st ! i) (open_positions st'' ! i)
     \<and> \<not> open_flag (open_positions st'' ! i)"
    if e: "eod_close all_df st' = Inr st''" for st''
  proof -
    have g: "list_all2 same_entry_fields (open_positions st') (open_positions st'')"
      using e by (rule eod_close_frame)
    then have l2: "length (open_positions st'') = length (open_positions st')"
      by (simp add: list_all2_lengthD)
    have "same_entry_fields (open_positions st' ! i) (open_positions st'' ! i)"
      using g i' by (rule list_all2_nthD)
    then have "same_entry_fields (open_positions st ! i) (open_positions st'' ! i)"
      using s1 same_entry_fields_trans by blast
    moreover have "\<not> open_flag (open_positions st'' ! i)"
      using eod_close_all_closed [OF e] i' l2 by simp
    ultimately show ?thesis using i' l2 by simp
  qed
  then show ?thesis using i' s1 by blast
qed

theorem entry_fields_frozen_witness:
  "run_rows (3 / 2) 10 (1 / 1000) signal_state [inrange_row] = Inr inrange_state
   \<and> (0 :: nat) < length (open_positions signal_state)
   \<and> same_entry_fields (open_positions signal_state ! 0) (open_positions inrange_state ! 0)
   \<and> \<not> ever_in_range (open_positions signal_state ! 0)
   \<and> ever_in_range (open_positions inrange_state ! 0)
   \<and> fees_usd (open_positions signal_state ! 0) < fees_usd (open_positions inrange_state ! 0)
   \<and> (\<exists>st''. eod_close (warmup_rows @ [signal_row, inrange_row]) inrange_state = Inr st''
         \<and> same_entry_fields (open_positions signal_state ! 0) (open_positions st'' ! 0)
         \<and> \<not> open_flag (open_positions st'' ! 0))"
proof -
  have h1: "run_rows (3 / 2) 10 (1 / 1000) signal_state [inrange_row] = Inr inrange_state"
    by (simp add: inrange_step)
  have h2: "(0 :: nat) < length (open_positions signal_state)"
    by (simp add: signal_state_def)
  obtain st'' where
    e: "eod_close (warmup_rows @ [signal_row, inrange_row]) inrange_state = Inr st''"
    using eod_close_total by blast
  have m: "\<not> ever_in_range (open_positions signal_state ! 0)"
    "ever_in_range (open_positions inrange_state ! 0)"
    "fees_usd (open_positions signal_state ! 0) < fees_usd (open_positions inrange_state ! 0)"
    using signal_L_pos
    by (simp_all add: signal_state_def inrange_state_def inrange_pos_def signal_pos_def)
  show ?thesis
    using entry_fields_frozen [OF h1 h2, of "warmup_rows @ [signal_row, inrange_row]"] h1 h2 e m
    by blast
qed

end
